theory Spec2Isabelle
  imports Main "HOL-Library.AList" "HOL-Library.Sublist" "HOL-Library.Word"
begin

section \<open>The DaZeus client: data model\<close>

text \<open>
  A byte is a \<^typ>\<open>char\<close> (eight bits), a byte slice a \<^typ>\<open>char list\<close>.
  A decoded JSON value is what \<^verbatim>\<open>json.Unmarshal\<close> stores in an
  \<^verbatim>\<open>interface{}\<close>: nil, a bool, a number, a string, a slice or a map.
  The code never inspects a number, so integers stand for them.
\<close>

type_synonym bytes = "char list"

datatype json =
    JNull
  | JBool bool
  | JNum int
  | JStr string
  | JArr "json list"
  | JObj "(string \<times> json) list"

text \<open>
  \<^verbatim>\<open>type Message map[string]interface{}\<close>. Reading a key of a Go map that is
  missing gives nil, the same value as a key stored with nil: \<open>field\<close> is the
  expression \<^verbatim>\<open>msg[k]\<close>.
\<close>

type_synonym Message = "(string \<times> json) list"

definition field :: "Message \<Rightarrow> string \<Rightarrow> json" where
  "field msg k = (case map_of msg k of None \<Rightarrow> JNull | Some v \<Rightarrow> v)"

text \<open>
  Every \<^verbatim>\<open>errors.New\<close> of the source is a constructor, together with the errors
  that the connection, the buffer and the JSON library hand back. A panic of the Go
  runtime is not an error value: it unwinds the callers, so it is a result of its own.
\<close>

datatype error =
    ScopeError
  | NoEventType
  | NoArray
  | NonStringInArray
  | NoSuccessField
  | NoBooleanInSuccess
  | ServerFailure
  | NoListenerFound
  | UnexpectedNonEvent
  | OffsetBytesMismatch
  | MessageBytesMismatch
  | InvalidConnectionString
  | NoSuchConnectionFormat
  | DialError
  | ConnReadError
  | ConnWriteError
  | BufferEOF
  | JsonError

datatype panic = IndexOutOfRange | MakeSliceLenOutOfRange

datatype 'a result = Ok 'a | Err error | Panic panic

text \<open>
  \<^verbatim>\<open>json.Marshal\<close> and \<^verbatim>\<open>json.Unmarshal\<close> belong to Go's standard library,
  not to this repository: the functions that call them take them as a parameter.
\<close>

record codec =
  Marshal :: "Message \<Rightarrow> error + bytes"
  Unmarshal :: "bytes \<Rightarrow> error + Message"

subsection \<open>scope.go\<close>

record Scope =
  Network :: "string option"
  Receiver :: "string option"
  Sender :: "string option"

definition NewUniversalScope :: Scope where
  "NewUniversalScope = \<lparr>Network = None, Receiver = None, Sender = None\<rparr>"

definition NewNetworkScope :: "string \<Rightarrow> Scope" where
  "NewNetworkScope network = \<lparr>Network = Some network, Receiver = None, Sender = None\<rparr>"

definition NewReceiverScope :: "string \<Rightarrow> string \<Rightarrow> Scope" where
  "NewReceiverScope network receiver =
     \<lparr>Network = Some network, Receiver = Some receiver, Sender = None\<rparr>"

definition NewSenderScope :: "string \<Rightarrow> string \<Rightarrow> Scope" where
  "NewSenderScope network sender =
     \<lparr>Network = Some network, Receiver = None, Sender = Some sender\<rparr>"

definition NewScope :: "string \<Rightarrow> string \<Rightarrow> string \<Rightarrow> Scope" where
  "NewScope network receiver sender =
     \<lparr>Network = Some network, Receiver = Some receiver, Sender = Some sender\<rparr>"

definition IsAll :: "Scope \<Rightarrow> bool" where
  "IsAll scope = (Network scope = None \<and> Receiver scope = None \<and> Sender scope = None)"

definition ToSlice :: "Scope \<Rightarrow> string list" where
  "ToSlice scope =
     (case Network scope of
        None \<Rightarrow> []
      | Some network \<Rightarrow>
          (case Receiver scope of
             None \<Rightarrow> [network]
           | Some receiver \<Rightarrow>
               (case Sender scope of
                  None \<Rightarrow> [network, receiver]
                | Some sender \<Rightarrow> [network, receiver, sender])))"

text \<open>
  \<open>ToCommandSlice\<close> returns a \<^verbatim>\<open>[]interface{}\<close> of strings and booleans. The
  boolean appended before the sender is \<^verbatim>\<open>false\<close> in the source, as it is before
  the receiver.
\<close>

definition ToCommandSlice :: "Scope \<Rightarrow> error + json list" where
  "ToCommandSlice scope =
     (if Receiver scope \<noteq> None \<and> Sender scope \<noteq> None then Inl ScopeError
      else
        (case Network scope of
           None \<Rightarrow> Inr []
         | Some network \<Rightarrow>
             Inr ([JStr network]
                  @ (case Receiver scope of
                       None \<Rightarrow> []
                     | Some receiver \<Rightarrow> [JBool False, JStr receiver])
                  @ (case Sender scope of
                       None \<Rightarrow> []
                     | Some sender \<Rightarrow> [JBool False, JStr sender]))))"

subsection \<open>The frame codec: \<open>checkMessage\<close>, \<open>read\<close>, \<open>write\<close>\<close>

text \<open>
  Go's \<^verbatim>\<open>int\<close> has 64 bits on the platforms the client runs on. Arithmetic on it
  wraps around: \<open>wrap64\<close> is the value an \<^verbatim>\<open>int\<close> holds after an operation whose
  mathematical result is \<open>x\<close>.
\<close>

definition wrap64 :: "int \<Rightarrow> int" where
  "wrap64 x = signed_take_bit 63 x"

definition isDigit :: "char \<Rightarrow> bool" where
  "isDigit c = (48 \<le> (of_char c :: nat) \<and> (of_char c :: nat) \<le> 57)"

definition digitVal :: "char \<Rightarrow> int" where
  "digitVal c = int (of_char c) - 48"

definition isNewline :: "char \<Rightarrow> bool" where
  "isNewline c = (c = CHR 0x0A \<or> c = CHR 0x0D)"

text \<open>
  The loop of \<open>checkMessage\<close>. Its first argument is the part of the buffer from
  index \<open>offset\<close> on, so \<open>cur\<close> is \<^verbatim>\<open>dazeus.buffer.Bytes()[offset]\<close>.
  \<open>offset\<close> counts bytes of the buffer and cannot overflow; \<open>messageLen\<close> can.
\<close>

fun scanHeader :: "bytes \<Rightarrow> nat \<Rightarrow> int \<Rightarrow> nat \<times> int" where
  "scanHeader [] offset messageLen = (offset, messageLen)"
| "scanHeader (cur # rest) offset messageLen =
     (if isDigit cur
      then scanHeader rest (offset + 1) (wrap64 (wrap64 (messageLen * 10) + digitVal cur))
      else if isNewline cur
      then scanHeader rest (offset + 1) messageLen
      else (offset, messageLen))"

definition checkMessage :: "bytes \<Rightarrow> bool \<times> nat \<times> int" where
  "checkMessage buf =
     (case scanHeader buf 0 0 of
        (offset, messageLen) \<Rightarrow>
          if messageLen > 0 \<and> int (length buf) \<ge> wrap64 (int offset + messageLen)
          then (True, offset, messageLen)
          else (False, 0, 0))"

text \<open>
  \<^verbatim>\<open>bytes.Buffer.Read(p)\<close> with \<open>len(p) = n\<close>: it fails with \<^verbatim>\<open>io.EOF\<close> on an
  empty buffer (unless \<open>n = 0\<close>), and otherwise moves up to \<open>n\<close> bytes out of the
  buffer.
\<close>

definition bufferRead :: "nat \<Rightarrow> bytes \<Rightarrow> (error + bytes) \<times> bytes" where
  "bufferRead n buf =
     (if buf = [] \<and> n > 0 then (Inl BufferEOF, buf) else (Inr (take n buf), drop n buf))"

text \<open>
  The loop of \<open>read\<close>, on the buffer and on what the connection still delivers:
  each element of \<open>chunks\<close> is the bytes one call of \<^verbatim>\<open>dazeus.conn.Read\<close> returns
  (at most 1024 in the source), and \<^verbatim>\<open>conn.Read\<close> fails once the list is used up.
  When \<open>checkMessage\<close> reports a frame after \<open>offset + messageLen\<close> has wrapped
  around, \<^verbatim>\<open>make([]byte, messageLen)\<close> is asked for a slice far beyond what the
  runtime allocates and panics.
\<close>

fun readFrom :: "codec \<Rightarrow> bytes list \<Rightarrow> bytes \<Rightarrow> Message result \<times> bytes \<times> bytes list" where
  "readFrom c chunks buf =
     (case checkMessage buf of
        (hasMessage, offset, messageLen) \<Rightarrow>
          if hasMessage then
            (case bufferRead offset buf of
               (Inl e, buf1) \<Rightarrow> (Err e, buf1, chunks)
             | (Inr discard, buf1) \<Rightarrow>
                 if length discard \<noteq> offset then (Err OffsetBytesMismatch, buf1, chunks)
                 else if int offset + messageLen \<ge> 2 ^ 63
                 then (Panic MakeSliceLenOutOfRange, buf1, chunks)
                 else
                   (case bufferRead (nat messageLen) buf1 of
                      (Inl e, buf2) \<Rightarrow> (Err e, buf2, chunks)
                    | (Inr message, buf2) \<Rightarrow>
                        if int (length message) \<noteq> messageLen
                        then (Err MessageBytesMismatch, buf2, chunks)
                        else
                          (case Unmarshal c message of
                             Inl e \<Rightarrow> (Err e, buf2, chunks)
                           | Inr msg \<Rightarrow> (Ok msg, buf2, chunks))))
          else
            (case chunks of
               [] \<Rightarrow> (Err ConnReadError, buf, [])
             | next # later \<Rightarrow> readFrom c later (buf @ next)))"

declare readFrom.simps [simp del]

text \<open>\<^verbatim>\<open>strconv.Itoa\<close> on a length, which is never negative.\<close>

definition digitChar :: "nat \<Rightarrow> char" where
  "digitChar d = char_of (48 + d)"

fun itoa :: "nat \<Rightarrow> bytes" where
  "itoa n = (if n < 10 then [digitChar n] else itoa (n div 10) @ [digitChar (n mod 10)])"

declare itoa.simps [simp del]

definition encodeFrame :: "bytes \<Rightarrow> bytes" where
  "encodeFrame body = itoa (length body) @ body"

subsection \<open>The connection\<close>

text \<open>
  An \<open>Event\<close> as \<open>makeEvent\<close> builds it. Its field \<^verbatim>\<open>DaZeus\<close> points back to
  the connection and is left out; the fields \<^verbatim>\<open>Network\<close>, \<^verbatim>\<open>Channel\<close>,
  \<^verbatim>\<open>Sender\<close> and \<^verbatim>\<open>Command\<close> carry the prefix \<open>ev\<close>, since \<open>Scope\<close> has
  fields of the same names.
\<close>

record Event =
  Event :: string
  Params :: "string list"
  evNetwork :: string
  evChannel :: string
  evSender :: string
  evCommand :: string

text \<open>
  A \<^verbatim>\<open>Handler\<close> is a Go closure \<^verbatim>\<open>func(Event)\<close>. What matters to the connection is
  which blocking calls it makes, so a handler is modelled by the requests it sends, in
  order, each through \<open>writeForSuccessResponse\<close> (as \<^verbatim>\<open>Reply\<close>, \<^verbatim>\<open>Message\<close>,
  \<^verbatim>\<open>Join\<close> and the other wrappers of the client do). It does not stop at a failed
  call.
\<close>

type_synonym Handler = "Event \<Rightarrow> Message list"

record listener =
  event :: string
  command :: string
  handler :: Handler

definition EventCommand :: string where
  "EventCommand = ''COMMAND''"

text \<open>
  What an observer of a run sees: \<open>Dispatched evt d\<close> when a handler is called for
  \<open>evt\<close> while the call depth is \<open>d\<close>, and \<open>Returned d r\<close> when a call made by a
  handler returns \<open>r\<close> to it at call depth \<open>d\<close>.
\<close>

datatype obs =
    Dispatched Event "64 word"
  | Returned "64 word" "Message result"

text \<open>
  The struct \<open>DaZeus\<close>. The \<^verbatim>\<open>net.Conn\<close> is the list \<open>conn_in\<close> of the byte
  chunks that the next calls of \<^verbatim>\<open>conn.Read\<close> return, the list \<open>conn_out\<close> of the
  byte slices written so far, and \<open>conn_up\<close>, which says whether \<^verbatim>\<open>conn.Write\<close>
  succeeds. The map \<open>listeners\<close> is an association list, in the order of
  registration (Go leaves the order of a \<^verbatim>\<open>range\<close> over a map open). The
  counters \<open>lastHandle\<close> (a \<^verbatim>\<open>ListenerHandle\<close>, which is an \<^verbatim>\<open>int\<close>) and
  \<open>callDepth\<close> are 64-bit words: \<open>+\<close> and \<open>-\<close> wrap around, \<open>sint\<close> reads the
  signed value. The logger has no effect on the connection and is left out. \<open>trace\<close> is not a field of the
  source: it collects the observations of the run.
\<close>

record DaZeus =
  conn_in :: "bytes list"
  conn_out :: "bytes list"
  conn_up :: bool
  buffer :: bytes
  listeners :: "(64 word \<times> listener) list"
  lastHandle :: "64 word"
  callDepth :: "64 word"
  responseQueue :: "Message list"
  trace :: "obs list"

text \<open>
  A function that blocks on the connection returns \<open>None\<close> when the fuel of its
  wait loop is used up, and otherwise its result with the connection as it left it.
\<close>

type_synonym 'a io = "DaZeus \<Rightarrow> ('a result \<times> DaZeus) option"

definition read :: "codec \<Rightarrow> DaZeus \<Rightarrow> Message result \<times> DaZeus" where
  "read c dazeus =
     (case readFrom c (conn_in dazeus) (buffer dazeus) of
        (r, buf, chunks) \<Rightarrow> (r, dazeus\<lparr>buffer := buf, conn_in := chunks\<rparr>))"

text \<open>
  The function \<^verbatim>\<open>write\<close> of the source; \<open>write\<close> is a command of Isabelle, hence
  the longer name. \<^verbatim>\<open>conn.Write\<close> returns an error whenever it writes fewer bytes than it was given,
  so the source's comparison of \<open>bytesWritten\<close> with \<open>len(tosend)\<close> never fails
  after a write without error.
\<close>

definition writeFrame :: "codec \<Rightarrow> Message \<Rightarrow> DaZeus \<Rightarrow> unit result \<times> DaZeus" where
  "writeFrame c message dazeus =
     (case Marshal c message of
        Inl e \<Rightarrow> (Err e, dazeus)
      | Inr body \<Rightarrow>
          if conn_up dazeus
          then (Ok (), dazeus\<lparr>conn_out := conn_out dazeus @ [encodeFrame body]\<rparr>)
          else (Err ConnWriteError, dazeus))"

subsection \<open>Events\<close>

fun stringsOf :: "json list \<Rightarrow> string list \<Rightarrow> error + string list" where
  "stringsOf [] strs = Inr strs"
| "stringsOf (val # arr) strs =
     (case val of
        JStr str \<Rightarrow> stringsOf arr (strs @ [str])
      | _ \<Rightarrow> Inl NonStringInArray)"

definition makeStringArray :: "json \<Rightarrow> error + string list" where
  "makeStringArray fieldValue =
     (case fieldValue of
        JArr arr \<Rightarrow> stringsOf arr []
      | _ \<Rightarrow> Inl NoArray)"

text \<open>
  Go checks every index: \<^verbatim>\<open>xs[i]\<close> panics unless \<open>i < len(xs)\<close>, and
  \<^verbatim>\<open>xs[k:]\<close> panics unless \<open>k \<le> len(xs)\<close>.
\<close>

definition index :: "'a list \<Rightarrow> nat \<Rightarrow> 'a result" where
  "index xs i = (if i < length xs then Ok (xs ! i) else Panic IndexOutOfRange)"

definition sliceFrom :: "'a list \<Rightarrow> nat \<Rightarrow> 'a list result" where
  "sliceFrom xs k = (if k \<le> length xs then Ok (drop k xs) else Panic IndexOutOfRange)"

definition andThen :: "'a result \<Rightarrow> ('a \<Rightarrow> 'b result) \<Rightarrow> 'b result" where
  "andThen r f = (case r of Ok x \<Rightarrow> f x | Err e \<Rightarrow> Err e | Panic p \<Rightarrow> Panic p)"

definition makeEvent :: "Message \<Rightarrow> Event result" where
  "makeEvent message =
     (case field message ''event'' of
        JStr messageEventType \<Rightarrow>
          (case makeStringArray (field message ''params'') of
             Inl e \<Rightarrow> Err e
           | Inr params \<Rightarrow>
               andThen (index params 0) (\<lambda>network.
               andThen
                 (if length params < 2 then
                    andThen (sliceFrom params 1) (\<lambda>ps. Ok ('''', '''', ps))
                  else if length params < 3 then
                    andThen (index params 1) (\<lambda>sender.
                    andThen (sliceFrom params 2) (\<lambda>ps. Ok (sender, '''', ps)))
                  else
                    andThen (index params 1) (\<lambda>sender.
                    andThen (index params 2) (\<lambda>channel.
                    andThen (sliceFrom params 3) (\<lambda>ps. Ok (sender, channel, ps)))))
                 (\<lambda>(sender, channel, params1).
               andThen
                 (if messageEventType = ''COMMAND'' then
                    andThen (index params1 0) (\<lambda>command.
                    andThen (sliceFrom params1 1) (\<lambda>ps. Ok (command, ps)))
                  else Ok ('''', params1))
                 (\<lambda>(command, params2).
               Ok \<lparr>Event = messageEventType, Params = params2, evNetwork = network,
                   evChannel = channel, evSender = sender, evCommand = command\<rparr>))))
      | _ \<Rightarrow> Err NoEventType)"

text \<open>
  The body of a handler: it sends its requests one after the other through \<open>call\<close>
  and goes on after an error; a panic unwinds it.
\<close>

fun runHandler :: "(Message \<Rightarrow> Message io) \<Rightarrow> Message list \<Rightarrow> unit io" where
  "runHandler call [] dazeus = Some (Ok (), dazeus)"
| "runHandler call (req # reqs) dazeus =
     (case call req dazeus of
        None \<Rightarrow> None
      | Some (Panic p, d1) \<Rightarrow> Some (Panic p, d1)
      | Some (r, d1) \<Rightarrow>
          runHandler call reqs (d1\<lparr>trace := trace d1 @ [Returned (callDepth d1) r]\<rparr>))"

text \<open>The loop of \<open>handleEvent\<close> over \<^verbatim>\<open>dazeus.listeners\<close>.\<close>

fun dispatch :: "(Message \<Rightarrow> Message io) \<Rightarrow> (64 word \<times> listener) list \<Rightarrow> Event \<Rightarrow> unit io" where
  "dispatch call [] evt dazeus = Some (Ok (), dazeus)"
| "dispatch call ((h, l) # ls) evt dazeus =
     (if event l = Event evt \<and> (event l \<noteq> EventCommand \<or> command l = evCommand evt)
      then
        (case runHandler call (handler l evt)
                (dazeus\<lparr>trace := trace dazeus @ [Dispatched evt (callDepth dazeus)]\<rparr>) of
           None \<Rightarrow> None
         | Some (Panic p, d1) \<Rightarrow> Some (Panic p, d1)
         | Some (r, d1) \<Rightarrow> dispatch call ls evt d1)
      else dispatch call ls evt dazeus)"

definition handleEvent :: "(Message \<Rightarrow> Message io) \<Rightarrow> Message \<Rightarrow> unit io" where
  "handleEvent call message dazeus =
     (case makeEvent message of
        Err e \<Rightarrow> Some (Err e, dazeus)
      | Panic p \<Rightarrow> Some (Panic p, dazeus)
      | Ok evt \<Rightarrow> dispatch call (listeners dazeus) evt dazeus)"

subsection \<open>Waiting for a response\<close>

text \<open>
  \<open>waitForSuccessResponse\<close> and \<open>writeForSuccessResponse\<close> take the wait loop they
  call (\<open>waitForResponse\<close>, with the fuel it has left) as their argument \<open>wait\<close>.
\<close>

definition waitForSuccessResponse :: "Message io \<Rightarrow> Message io" where
  "waitForSuccessResponse wait dazeus =
     (case wait dazeus of
        None \<Rightarrow> None
      | Some (Err e, d1) \<Rightarrow> Some (Err e, d1)
      | Some (Panic p, d1) \<Rightarrow> Some (Panic p, d1)
      | Some (Ok response, d1) \<Rightarrow>
          if field response ''success'' = JNull then Some (Err NoSuccessField, d1)
          else
            (case field response ''success'' of
               JBool success \<Rightarrow>
                 if \<not> success then Some (Err ServerFailure, d1) else Some (Ok response, d1)
             | _ \<Rightarrow> Some (Err NoBooleanInSuccess, d1)))"

definition writeForSuccessResponse :: "codec \<Rightarrow> Message io \<Rightarrow> Message \<Rightarrow> Message io" where
  "writeForSuccessResponse c wait message dazeus =
     (case writeFrame c message dazeus of
        (Err e, d1) \<Rightarrow> Some (Err e, d1)
      | (Panic p, d1) \<Rightarrow> Some (Panic p, d1)
      | (Ok u, d1) \<Rightarrow> waitForSuccessResponse wait d1)"

text \<open>
  The loop of \<open>waitForResponse\<close>; each reading of a frame takes one unit of fuel.
  A handler called from it makes its calls through \<open>writeForSuccessResponse\<close>, which
  enters the loop again. A panic below leaves \<open>callDepth\<close> as it is: the source has
  no \<^verbatim>\<open>defer\<close>.
\<close>

fun waitForResponse :: "codec \<Rightarrow> nat \<Rightarrow> Message io" where
  "waitForResponse c 0 dazeus = None"
| "waitForResponse c (Suc n) dazeus =
     (case read c dazeus of
        (Err e, d1) \<Rightarrow> Some (Err e, d1)
      | (Panic p, d1) \<Rightarrow> Some (Panic p, d1)
      | (Ok msg, d1) \<Rightarrow>
          if field msg ''event'' \<noteq> JNull then
            (case handleEvent (writeForSuccessResponse c (\<lambda>d. waitForResponse c n d)) msg
                    (d1\<lparr>callDepth := callDepth d1 + 1\<rparr>) of
               None \<Rightarrow> None
             | Some (Panic p, d2) \<Rightarrow> Some (Panic p, d2)
             | Some (Err e, d2) \<Rightarrow> Some (Err e, d2\<lparr>callDepth := callDepth d2 - 1\<rparr>)
             | Some (Ok u, d2) \<Rightarrow>
                 (let d3 = d2\<lparr>callDepth := callDepth d2 - 1\<rparr> in
                  if int (length (responseQueue d3)) > sint (callDepth d3) then
                    (case responseQueue d3 of
                       [] \<Rightarrow> Some (Panic IndexOutOfRange, d3)
                     | m # rest \<Rightarrow> Some (Ok m, d3\<lparr>responseQueue := rest\<rparr>))
                  else waitForResponse c n d3))
          else if int (length (responseQueue d1)) = sint (callDepth d1) then Some (Ok msg, d1)
          else waitForResponse c n (d1\<lparr>responseQueue := responseQueue d1 @ [msg]\<rparr>))"

declare waitForResponse.simps [simp del]

text \<open>A blocking call made with fuel \<open>n\<close>, as a handler or a wrapper makes it.\<close>

definition request :: "codec \<Rightarrow> nat \<Rightarrow> Message \<Rightarrow> Message io" where
  "request c n = writeForSuccessResponse c (waitForResponse c n)"

definition waitForEvent :: "codec \<Rightarrow> nat \<Rightarrow> unit io" where
  "waitForEvent c n dazeus =
     (case read c dazeus of
        (Err e, d1) \<Rightarrow> Some (Err e, d1)
      | (Panic p, d1) \<Rightarrow> Some (Panic p, d1)
      | (Ok msg, d1) \<Rightarrow>
          if field msg ''event'' = JNull then Some (Err UnexpectedNonEvent, d1)
          else handleEvent (request c n) msg d1)"

text \<open>\<open>Listen\<close> loops until \<open>waitForEvent\<close> fails; each round takes one unit of fuel.\<close>

fun Listen :: "codec \<Rightarrow> nat \<Rightarrow> unit io" where
  "Listen c 0 dazeus = None"
| "Listen c (Suc n) dazeus =
     (case waitForEvent c n dazeus of
        None \<Rightarrow> None
      | Some (Ok u, d1) \<Rightarrow> Listen c n d1
      | Some (r, d1) \<Rightarrow> Some (r, d1))"

subsection \<open>Connecting, subscribing and unsubscribing\<close>

text \<open>
  \<^verbatim>\<open>strings.SplitN(s, ":", 2)\<close> gives two parts exactly when \<open>s\<close> has a colon: what
  is before the first colon and what is after it.
\<close>

definition splitColon :: "string \<Rightarrow> (string \<times> string) option" where
  "splitColon s =
     (case dropWhile (\<lambda>x. x \<noteq> CHR '':'') s of
        [] \<Rightarrow> None
      | x # address \<Rightarrow> Some (takeWhile (\<lambda>x. x \<noteq> CHR '':'') s, address))"

text \<open>
  \<open>ConnectWithLogger\<close>. \<^verbatim>\<open>net.Dial\<close> is the parameter \<open>dial\<close>: it fails, or gives
  the connection, that is the chunks of bytes the core is going to send on it.
  \<open>connected\<close> is the struct that \<open>ConnectWithLogger\<close> returns for it.
\<close>

definition connected :: "bytes list \<Rightarrow> DaZeus" where
  "connected conn =
     \<lparr>conn_in = conn, conn_out = [], conn_up = True, buffer = [], listeners = [],
      lastHandle = 1, callDepth = 0, responseQueue = [], trace = []\<rparr>"

definition ConnectWithLogger ::
    "(string \<Rightarrow> string \<Rightarrow> error + bytes list) \<Rightarrow> string \<Rightarrow> error + DaZeus" where
  "ConnectWithLogger dial connectionString =
     (case splitColon connectionString of
        None \<Rightarrow> Inl InvalidConnectionString
      | Some (format, address) \<Rightarrow>
          if format \<noteq> ''tcp'' \<and> format \<noteq> ''unix'' then Inl NoSuchConnectionFormat
          else
            (case dial format address of
               Inl e \<Rightarrow> Inl e
             | Inr conn \<Rightarrow> Inr (connected conn)))"

text \<open>
  The three requests of the registry. On an error the source returns the handle
  \<open>-1\<close> beside it; the model returns the error alone.
\<close>

definition subscribeRequest :: "string \<Rightarrow> Message" where
  "subscribeRequest ev = [(''do'', JStr ''subscribe''), (''params'', JArr [JStr ev])]"

definition commandRequest :: "string \<Rightarrow> json list \<Rightarrow> Message" where
  "commandRequest cmd scopeSlice =
     [(''do'', JStr ''command''), (''params'', JArr (JStr cmd # scopeSlice))]"

definition unsubscribeRequest :: "string \<Rightarrow> Message" where
  "unsubscribeRequest ev = [(''do'', JStr ''unsubscribe''), (''params'', JArr [JStr ev])]"

definition register :: "listener \<Rightarrow> DaZeus \<Rightarrow> 64 word result \<times> DaZeus" where
  "register ldata dazeus =
     (let handle = lastHandle dazeus in
      (Ok handle,
       dazeus\<lparr>lastHandle := lastHandle dazeus + 1,
              listeners := AList.update handle ldata (listeners dazeus)\<rparr>))"

definition Subscribe :: "codec \<Rightarrow> nat \<Rightarrow> string \<Rightarrow> Handler \<Rightarrow> 64 word io" where
  "Subscribe c n ev h dazeus =
     (let ldata = \<lparr>event = ev, command = [], handler = h\<rparr> in
      case request c n (subscribeRequest ev) dazeus of
        None \<Rightarrow> None
      | Some (Err e, d1) \<Rightarrow> Some (Err e, d1)
      | Some (Panic p, d1) \<Rightarrow> Some (Panic p, d1)
      | Some (Ok resp, d1) \<Rightarrow> Some (register ldata d1))"

definition SubscribeCommand :: "codec \<Rightarrow> nat \<Rightarrow> string \<Rightarrow> Scope \<Rightarrow> Handler \<Rightarrow> 64 word io" where
  "SubscribeCommand c n cmd scope h dazeus =
     (let ldata = \<lparr>event = EventCommand, command = cmd, handler = h\<rparr> in
      case ToCommandSlice scope of
        Inl e \<Rightarrow> Some (Err e, dazeus)
      | Inr scopeSlice \<Rightarrow>
          (case request c n (commandRequest cmd scopeSlice) dazeus of
             None \<Rightarrow> None
           | Some (Err e, d1) \<Rightarrow> Some (Err e, d1)
           | Some (Panic p, d1) \<Rightarrow> Some (Panic p, d1)
           | Some (Ok resp, d1) \<Rightarrow> Some (register ldata d1)))"

definition Unsubscribe :: "codec \<Rightarrow> nat \<Rightarrow> 64 word \<Rightarrow> unit io" where
  "Unsubscribe c n handle dazeus =
     (case map_of (listeners dazeus) handle of
        None \<Rightarrow> Some (Err NoListenerFound, dazeus)
      | Some l \<Rightarrow>
          (let d1 = dazeus\<lparr>listeners := AList.delete handle (listeners dazeus)\<rparr> in
           if event l \<noteq> ''COMMAND'' then
             (let found = list_ex (\<lambda>hl. event (snd hl) = event l) (listeners d1) in
              if \<not> found then
                (case request c n (unsubscribeRequest (event l)) d1 of
                   None \<Rightarrow> None
                 | Some (Err e, d2) \<Rightarrow> Some (Err e, d2)
                 | Some (Panic p, d2) \<Rightarrow> Some (Panic p, d2)
                 | Some (Ok resp, d2) \<Rightarrow> Some (Ok (), d2))
              else Some (Ok (), d1))
           else Some (Ok (), d1)))"

text \<open>
  A client as a list of calls on one connection. \<open>run\<close> makes them in order, each
  with fuel \<open>n\<close>, and collects the handles that the registrations return; it stops
  when a call runs out of fuel or panics.
\<close>

datatype op =
    OpSubscribe string Handler
  | OpSubscribeCommand string Scope Handler
  | OpUnsubscribe "64 word"
  | OpRequest Message
  | OpListen

fun run :: "codec \<Rightarrow> nat \<Rightarrow> op list \<Rightarrow> DaZeus \<Rightarrow> 64 word list \<times> DaZeus" where
  "run c n [] dazeus = ([], dazeus)"
| "run c n (OpSubscribe ev h # ops) dazeus =
     (case Subscribe c n ev h dazeus of
        None \<Rightarrow> ([], dazeus)
      | Some (Panic p, d1) \<Rightarrow> ([], d1)
      | Some (Err e, d1) \<Rightarrow> run c n ops d1
      | Some (Ok handle, d1) \<Rightarrow> (case run c n ops d1 of (hs, d2) \<Rightarrow> (handle # hs, d2)))"
| "run c n (OpSubscribeCommand cmd scope h # ops) dazeus =
     (case SubscribeCommand c n cmd scope h dazeus of
        None \<Rightarrow> ([], dazeus)
      | Some (Panic p, d1) \<Rightarrow> ([], d1)
      | Some (Err e, d1) \<Rightarrow> run c n ops d1
      | Some (Ok handle, d1) \<Rightarrow> (case run c n ops d1 of (hs, d2) \<Rightarrow> (handle # hs, d2)))"
| "run c n (OpUnsubscribe handle # ops) dazeus =
     (case Unsubscribe c n handle dazeus of
        None \<Rightarrow> ([], dazeus)
      | Some (Panic p, d1) \<Rightarrow> ([], d1)
      | Some (r, d1) \<Rightarrow> run c n ops d1)"
| "run c n (OpRequest message # ops) dazeus =
     (case request c n message dazeus of
        None \<Rightarrow> ([], dazeus)
      | Some (Panic p, d1) \<Rightarrow> ([], d1)
      | Some (r, d1) \<Rightarrow> run c n ops d1)"
| "run c n (OpListen # ops) dazeus =
     (case Listen c n dazeus of
        None \<Rightarrow> ([], dazeus)
      | Some (Panic p, d1) \<Rightarrow> ([], d1)
      | Some (r, d1) \<Rightarrow> run c n ops d1)"

subsection \<open>A JSON codec to run the model on\<close>

text \<open>
  A codec for compact JSON, used where a statement is evaluated on concrete frames.
  It writes the members of an object in the order of the list, escapes the quote and
  the backslash in a string with a backslash, and reads back what it writes.
\<close>

fun encString :: "string \<Rightarrow> bytes" where
  "encString [] = []"
| "encString (x # xs) =
     (if x = CHR 0x22 \<or> x = CHR 0x5C then CHR 0x5C # x # encString xs else x # encString xs)"

fun commaSep :: "bytes list \<Rightarrow> bytes" where
  "commaSep [] = []"
| "commaSep [x] = x"
| "commaSep (x # y # ys) = x @ '','' @ commaSep (y # ys)"

fun encode :: "json \<Rightarrow> bytes" where
  "encode JNull = ''null''"
| "encode (JBool b) = (if b then ''true'' else ''false'')"
| "encode (JNum i) = (if i < 0 then ''-'' @ itoa (nat (- i)) else itoa (nat i))"
| "encode (JStr s) = [CHR 0x22] @ encString s @ [CHR 0x22]"
| "encode (JArr vs) = ''['' @ commaSep (map encode vs) @ '']''"
| "encode (JObj kvs) =
     ''{'' @ commaSep (map (\<lambda>kv. [CHR 0x22] @ encString (fst kv) @ [CHR 0x22] @ '':''
                                   @ encode (snd kv)) kvs) @ ''}''"

fun parseString :: "bytes \<Rightarrow> string \<Rightarrow> (string \<times> bytes) option" where
  "parseString [] acc = None"
| "parseString (x # xs) acc =
     (if x = CHR 0x22 then Some (acc, xs)
      else if x = CHR 0x5C then
        (case xs of [] \<Rightarrow> None | y # ys \<Rightarrow> parseString ys (acc @ [y]))
      else parseString xs (acc @ [x]))"

fun parseDigits :: "bytes \<Rightarrow> nat \<Rightarrow> nat \<times> bytes" where
  "parseDigits [] v = (v, [])"
| "parseDigits (x # xs) v =
     (if isDigit x then parseDigits xs (10 * v + nat (digitVal x)) else (v, x # xs))"

fun parseValue :: "nat \<Rightarrow> bytes \<Rightarrow> (json \<times> bytes) option"
  and parseElements :: "nat \<Rightarrow> bytes \<Rightarrow> (json list \<times> bytes) option"
  and parseMembers :: "nat \<Rightarrow> bytes \<Rightarrow> ((string \<times> json) list \<times> bytes) option" where
  "parseValue 0 bs = None"
| "parseValue (Suc k) [] = None"
| "parseValue (Suc k) (x # xs) =
     (if x = CHR ''n'' then (if take 3 xs = ''ull'' then Some (JNull, drop 3 xs) else None)
      else if x = CHR ''t'' then
        (if take 3 xs = ''rue'' then Some (JBool True, drop 3 xs) else None)
      else if x = CHR ''f'' then
        (if take 4 xs = ''alse'' then Some (JBool False, drop 4 xs) else None)
      else if x = CHR 0x22 then
        (case parseString xs [] of None \<Rightarrow> None | Some (s, r) \<Rightarrow> Some (JStr s, r))
      else if x = CHR ''['' then
        (if take 1 xs = '']'' then Some (JArr [], drop 1 xs)
         else (case parseElements k xs of None \<Rightarrow> None | Some (vs, r) \<Rightarrow> Some (JArr vs, r)))
      else if x = CHR ''{'' then
        (if take 1 xs = ''}'' then Some (JObj [], drop 1 xs)
         else (case parseMembers k xs of None \<Rightarrow> None | Some (kvs, r) \<Rightarrow> Some (JObj kvs, r)))
      else if x = CHR ''-'' then
        (case parseDigits xs 0 of (v, r) \<Rightarrow> if r = xs then None else Some (JNum (- int v), r))
      else if isDigit x then
        (case parseDigits (x # xs) 0 of (v, r) \<Rightarrow> Some (JNum (int v), r))
      else None)"
| "parseElements 0 bs = None"
| "parseElements (Suc k) bs =
     (case parseValue k bs of
        None \<Rightarrow> None
      | Some (v, []) \<Rightarrow> None
      | Some (v, y # ys) \<Rightarrow>
          if y = CHR '','' then
            (case parseElements k ys of None \<Rightarrow> None | Some (vs, r) \<Rightarrow> Some (v # vs, r))
          else if y = CHR '']'' then Some ([v], ys)
          else None)"
| "parseMembers 0 bs = None"
| "parseMembers (Suc k) [] = None"
| "parseMembers (Suc k) (q # bs) =
     (if q \<noteq> CHR 0x22 then None
      else
        (case parseString bs [] of
           None \<Rightarrow> None
         | Some (key, []) \<Rightarrow> None
         | Some (key, colon # r) \<Rightarrow>
             if colon \<noteq> CHR '':'' then None
             else
               (case parseValue k r of
                  None \<Rightarrow> None
                | Some (v, []) \<Rightarrow> None
                | Some (v, y # ys) \<Rightarrow>
                    if y = CHR '','' then
                      (case parseMembers k ys of
                         None \<Rightarrow> None
                       | Some (kvs, r') \<Rightarrow> Some ((key, v) # kvs, r'))
                    else if y = CHR ''}'' then Some ([(key, v)], ys)
                    else None)))"

definition jsonMarshal :: "Message \<Rightarrow> error + bytes" where
  "jsonMarshal message = Inr (encode (JObj message))"

definition jsonUnmarshal :: "bytes \<Rightarrow> error + Message" where
  "jsonUnmarshal bs =
     (case parseValue (length bs) bs of
        Some (JObj kvs, []) \<Rightarrow> Inr kvs
      | _ \<Rightarrow> Inl JsonError)"

definition jsonCodec :: codec where
  "jsonCodec = \<lparr>Marshal = jsonMarshal, Unmarshal = jsonUnmarshal\<rparr>"

text \<open>The frame that carries \<open>message\<close>, as \<open>write\<close> sends it.\<close>

definition frameOf :: "codec \<Rightarrow> Message \<Rightarrow> bytes" where
  "frameOf c message = (case Marshal c message of Inl e \<Rightarrow> [] | Inr body \<Rightarrow> encodeFrame body)"

subsection \<open>Notions for the statements\<close>

text \<open>
  The number that a string of digits denotes when it is read after \<open>v\<close>, without
  wrap-around.
\<close>

fun decimalValue :: "bytes \<Rightarrow> int \<Rightarrow> int" where
  "decimalValue [] v = v"
| "decimalValue (d # ds) v = decimalValue ds (v * 10 + digitVal d)"

text \<open>
  A body can follow a length prefix when its first byte ends the header: it is not
  empty and starts with neither a digit nor a line break. The JSON text of an object
  starts with a brace.
\<close>

definition startsBody :: "bytes \<Rightarrow> bool" where
  "startsBody body = (case body of [] \<Rightarrow> False | b # bs \<Rightarrow> \<not> isDigit b \<and> \<not> isNewline b)"

text \<open>
  What the frame codec needs of the JSON library for a message: \<^verbatim>\<open>json.Marshal\<close>
  gives a body that can follow a length prefix, the frame is short enough for its
  length to be an \<^verbatim>\<open>int\<close>, and \<^verbatim>\<open>json.Unmarshal\<close> reads the message back from
  the body.
\<close>

definition framed :: "codec \<Rightarrow> Message \<Rightarrow> bool" where
  "framed c message =
     (case Marshal c message of
        Inl e \<Rightarrow> False
      | Inr body \<Rightarrow>
          startsBody body \<and> int (length (encodeFrame body)) < 2 ^ 63
          \<and> Unmarshal c body = Inr message)"

text \<open>
  What a blocking function may do to the connection. It never touches the registry
  and never closes the connection; it only adds to the trace and to what has been
  written; and unless it panics it leaves \<open>callDepth\<close> as it found it.
\<close>

definition isPanic :: "'a result \<Rightarrow> bool" where
  "isPanic r = (case r of Panic p \<Rightarrow> True | _ \<Rightarrow> False)"

definition keeps :: "DaZeus \<Rightarrow> 'a result \<Rightarrow> DaZeus \<Rightarrow> bool" where
  "keeps d r d' =
     (listeners d' = listeners d \<and> lastHandle d' = lastHandle d \<and> conn_up d' = conn_up d
      \<and> prefix (trace d) (trace d') \<and> prefix (conn_out d) (conn_out d')
      \<and> (isPanic r \<or> callDepth d' = callDepth d))"

definition preserves :: "'a io \<Rightarrow> bool" where
  "preserves f = (\<forall>d r d'. f d = Some (r, d') \<longrightarrow> keeps d r d')"

text \<open>The test of \<open>handleEvent\<close> for calling the handler of a listener.\<close>

definition matching :: "listener \<Rightarrow> Event \<Rightarrow> bool" where
  "matching l evt =
     (event l = Event evt \<and> (event l \<noteq> EventCommand \<or> command l = evCommand evt))"

text \<open>Messages of the protocol, for the examples.\<close>

definition privmsgEvent :: Message where
  "privmsgEvent =
     [(''event'', JStr ''PRIVMSG''),
      (''params'', JArr [JStr ''net'', JStr ''alice'', JStr ''#chan'', JStr ''hi''])]"

definition nickReply :: Message where
  "nickReply = [(''success'', JBool True), (''nick'', JStr ''mybot'')]"

definition networksReply :: Message where
  "networksReply = [(''success'', JBool True), (''networks'', JArr [JStr ''net''])]"

definition failureReply :: Message where
  "failureReply = [(''success'', JBool False)]"

definition malformedReply :: Message where
  "malformedReply = [(''nick'', JStr ''mybot'')]"

definition nullReply :: Message where
  "nullReply = [(''success'', JNull), (''nick'', JStr ''mybot'')]"

definition nickRequest :: Message where
  "nickRequest = [(''get'', JStr ''nick''), (''params'', JArr [JStr ''net''])]"

definition networksRequest :: Message where
  "networksRequest = [(''get'', JStr ''networks'')]"

text \<open>
  The event that \<open>makeEvent\<close> builds from \<open>privmsgEvent\<close>, a listener whose handler
  asks for the nick of the bot, and a connection that has this listener registered
  under handle 1.
\<close>

definition privmsgEvt :: Event where
  "privmsgEvt =
     \<lparr>Event = ''PRIVMSG'', Params = [''hi''], evNetwork = ''net'', evChannel = ''#chan'',
      evSender = ''alice'', evCommand = []\<rparr>"

definition replyListener :: listener where
  "replyListener = \<lparr>event = ''PRIVMSG'', command = [], handler = (\<lambda>evt. [nickRequest])\<rparr>"

definition listening :: "bytes list \<Rightarrow> DaZeus" where
  "listening conn =
     \<lparr>conn_in = conn, conn_out = [], conn_up = True, buffer = [],
      listeners = [(1, replyListener)], lastHandle = 2, callDepth = 0, responseQueue = [],
      trace = []\<rparr>"

text \<open>
  A plain success response, a handler that makes no call, a client that registers
  three listeners and unregisters the first one in between, and a connection at
  rest with given input, output, registry and handle counter.
\<close>

definition okReply :: Message where
  "okReply = [(''success'', JBool True)]"

definition quiet :: Handler where
  "quiet = (\<lambda>evt. [])"

definition client :: "op list" where
  "client =
     [OpSubscribe ''PRIVMSG'' quiet,
      OpSubscribeCommand ''hello'' (NewNetworkScope ''net'') quiet,
      OpUnsubscribe 1,
      OpSubscribe ''JOIN'' quiet]"

definition idle :: "bytes list \<Rightarrow> bytes list \<Rightarrow> (64 word \<times> listener) list \<Rightarrow> 64 word \<Rightarrow> DaZeus" where
  "idle inp out ls lh =
     \<lparr>conn_in = inp, conn_out = out, conn_up = True, buffer = [], listeners = ls,
      lastHandle = lh, callDepth = 0, responseQueue = [], trace = []\<rparr>"

section \<open>The frame codec\<close>

lemma wrap64_id: "- (2 ^ 63) \<le> x \<Longrightarrow> x < 2 ^ 63 \<Longrightarrow> wrap64 x = x"
  unfolding wrap64_def by (simp add: signed_take_bit_int_eq_self)

lemma isDigit_digitChar: "d < 10 \<Longrightarrow> isDigit (digitChar d)"
  by (simp add: isDigit_def digitChar_def)

lemma digitVal_digitChar: "d < 10 \<Longrightarrow> digitVal (digitChar d) = int d"
  by (simp add: digitVal_def digitChar_def)

lemma digitVal_range: "isDigit c \<Longrightarrow> 0 \<le> digitVal c \<and> digitVal c \<le> 9"
  by (auto simp: isDigit_def digitVal_def)

lemma decimalValue_ge:
  "list_all isDigit ds \<Longrightarrow> 0 \<le> v \<Longrightarrow> v \<le> decimalValue ds v"
proof (induction ds arbitrary: v)
  case Nil
  then show ?case by simp
next
  case (Cons d ds)
  from Cons.prems have d: "0 \<le> digitVal d" and ds: "list_all isDigit ds"
    using digitVal_range by auto
  from d Cons.prems(2) have "v \<le> v * 10 + digitVal d" by simp
  moreover from d Cons.prems(2) have "0 \<le> v * 10 + digitVal d" by simp
  then have "v * 10 + digitVal d \<le> decimalValue ds (v * 10 + digitVal d)"
    using Cons.IH ds by blast
  ultimately show ?case by simp
qed

lemma decimalValue_append:
  "decimalValue (xs @ ys) v = decimalValue ys (decimalValue xs v)"
  by (induction xs arbitrary: v) simp_all

text \<open>
  As long as the number read stays below \<open>2 ^ 63\<close>, the loop of \<open>checkMessage\<close>
  reads a string of digits as that number.
\<close>

lemma scanHeader_digits:
  "list_all isDigit ds \<Longrightarrow> 0 \<le> v \<Longrightarrow> decimalValue ds v < 2 ^ 63 \<Longrightarrow>
   scanHeader (ds @ rest) off v = scanHeader rest (off + length ds) (decimalValue ds v)"
proof (induction ds arbitrary: v off)
  case Nil
  then show ?case by simp
next
  case (Cons d ds)
  let ?w = "v * 10 + digitVal d"
  from Cons.prems have dig: "isDigit d" and ds: "list_all isDigit ds" by auto
  from dig have d: "0 \<le> digitVal d" using digitVal_range by blast
  with Cons.prems(2) have w0: "0 \<le> ?w" by simp
  from decimalValue_ge [OF ds w0] Cons.prems(3) have w1: "?w < 2 ^ 63" by simp
  from Cons.prems(2) d w1 have v1: "v * 10 < 2 ^ 63" "0 \<le> v * 10" by auto
  have "wrap64 (v * 10) = v * 10" using v1 by (intro wrap64_id) auto
  moreover have "wrap64 ?w = ?w" using w0 w1 by (intro wrap64_id) auto
  ultimately have step: "wrap64 (wrap64 (v * 10) + digitVal d) = ?w" by simp
  have "scanHeader ((d # ds) @ rest) off v = scanHeader (ds @ rest) (off + 1) ?w"
    using dig step by simp
  also have "\<dots> = scanHeader rest (off + 1 + length ds) (decimalValue ds ?w)"
    using Cons.IH [OF ds w0] Cons.prems(3) by simp
  finally show ?case by simp
qed

lemma scanHeader_all_digits:
  "list_all isDigit ds \<Longrightarrow> 0 \<le> v \<Longrightarrow> decimalValue ds v < 2 ^ 63 \<Longrightarrow>
   scanHeader ds off v = (off + length ds, decimalValue ds v)"
  using scanHeader_digits [of ds v "[]" off] by simp

lemma itoa_digits: "list_all isDigit (itoa n)"
proof (induction n rule: itoa.induct)
  case (1 n)
  show ?case
  proof (cases "n < 10")
    case True
    then show ?thesis by (subst itoa.simps) (simp add: isDigit_digitChar)
  next
    case False
    then have "list_all isDigit (itoa (n div 10))" using "1.IH" by simp
    moreover have "isDigit (digitChar (n mod 10))" by (simp add: isDigit_digitChar)
    ultimately show ?thesis using False by (subst itoa.simps) simp
  qed
qed

lemma itoa_value: "decimalValue (itoa n) 0 = int n"
proof (induction n rule: itoa.induct)
  case (1 n)
  show ?case
  proof (cases "n < 10")
    case True
    then show ?thesis by (subst itoa.simps) (simp add: digitVal_digitChar)
  next
    case False
    then have "decimalValue (itoa (n div 10)) 0 = int (n div 10)" using "1.IH" by simp
    then have "decimalValue (itoa n) 0 = int (n div 10) * 10 + int (n mod 10)"
      using False by (subst itoa.simps) (simp add: decimalValue_append digitVal_digitChar)
    then show ?thesis by (simp add: zdiv_int zmod_int)
  qed
qed

lemma itoa_not_Nil: "itoa n \<noteq> []"
  by (subst itoa.simps) simp

lemma itoa_prefix_value: "decimalValue (take k (itoa n)) 0 \<le> int n"
proof -
  have all: "list_all isDigit (take k (itoa n))" "list_all isDigit (drop k (itoa n))"
    using itoa_digits [of n] by (auto simp: list_all_iff dest: in_set_takeD in_set_dropD)
  have v0: "0 \<le> decimalValue (take k (itoa n)) 0"
    using decimalValue_ge [OF all(1), of 0] by simp
  have "decimalValue (itoa n) 0
          = decimalValue (drop k (itoa n)) (decimalValue (take k (itoa n)) 0)"
    using decimalValue_append [of "take k (itoa n)" "drop k (itoa n)" 0] by simp
  then show ?thesis
    using decimalValue_ge [OF all(2) v0] itoa_value [of n] by simp
qed

lemma scanHeader_body: "startsBody body \<Longrightarrow> scanHeader (body @ extra) off v = (off, v)"
  by (cases body) (simp_all add: startsBody_def)

lemma scanHeader_frame:
  assumes "startsBody body" "int (length body) < 2 ^ 63"
  shows "scanHeader (encodeFrame body @ extra) 0 0
           = (length (itoa (length body)), int (length body))"
proof -
  have "decimalValue (itoa (length body)) 0 < 2 ^ 63"
    using assms(2) by (simp add: itoa_value)
  then have "scanHeader (itoa (length body) @ (body @ extra)) 0 0
        = scanHeader (body @ extra) (0 + length (itoa (length body)))
            (decimalValue (itoa (length body)) 0)"
    by (intro scanHeader_digits itoa_digits) auto
  then show ?thesis
    using assms(1) by (simp add: encodeFrame_def scanHeader_body itoa_value)
qed

text \<open>A buffer that starts with a whole frame has a message.\<close>

lemma checkMessage_frame:
  assumes "startsBody body" "int (length (encodeFrame body)) < 2 ^ 63"
  shows "checkMessage (encodeFrame body @ extra)
           = (True, length (itoa (length body)), int (length body))"
proof -
  from assms(2) have len: "int (length body) < 2 ^ 63" by (simp add: encodeFrame_def)
  from assms(1) have pos: "0 < length body" by (cases body) (simp_all add: startsBody_def)
  have "wrap64 (int (length (itoa (length body))) + int (length body))
          = int (length (itoa (length body))) + int (length body)"
    using assms(2) by (intro wrap64_id) (auto simp: encodeFrame_def)
  moreover have "length (encodeFrame body @ extra)
                   = length (itoa (length body)) + length body + length extra"
    by (simp add: encodeFrame_def)
  ultimately show ?thesis
    using pos by (simp add: checkMessage_def scanHeader_frame [OF assms(1) len])
qed

text \<open>A buffer that holds only a part of a frame has none.\<close>

lemma checkMessage_prefix:
  assumes "startsBody body" "int (length (encodeFrame body)) < 2 ^ 63"
    and k: "k < length (encodeFrame body)"
  shows "checkMessage (take k (encodeFrame body)) = (False, 0, 0)"
proof (cases "k < length (itoa (length body))")
  case True
  let ?ds = "take k (itoa (length body))"
  have take: "take k (encodeFrame body) = ?ds" using True by (simp add: encodeFrame_def)
  have all: "list_all isDigit ?ds"
    using itoa_digits [of "length body"] by (auto simp: list_all_iff dest: in_set_takeD)
  have le: "decimalValue ?ds 0 \<le> int (length body)" by (rule itoa_prefix_value)
  have ge: "0 \<le> decimalValue ?ds 0" using decimalValue_ge [OF all, of 0] by simp
  from le assms(2) have lt: "decimalValue ?ds 0 < 2 ^ 63" by (simp add: encodeFrame_def)
  have scan: "scanHeader ?ds 0 0 = (length ?ds, decimalValue ?ds 0)"
    using scanHeader_all_digits [OF all _ lt, of 0] by simp
  have "int (length ?ds) + decimalValue ?ds 0 < 2 ^ 63"
    using le assms(2) True by (simp add: encodeFrame_def)
  then have "wrap64 (int (length ?ds) + decimalValue ?ds 0)
               = int (length ?ds) + decimalValue ?ds 0"
    using ge by (intro wrap64_id) auto
  then show ?thesis
    using scan ge by (simp add: checkMessage_def take)
next
  case False
  let ?L = "length (itoa (length body))"
  from assms(2) have len: "int (length body) < 2 ^ 63" by (simp add: encodeFrame_def)
  have take: "take k (encodeFrame body) = itoa (length body) @ take (k - ?L) body"
    using False by (simp add: encodeFrame_def)
  have "decimalValue (itoa (length body)) 0 < 2 ^ 63" using len by (simp add: itoa_value)
  then have scan0: "scanHeader (itoa (length body) @ take (k - ?L) body) 0 0
        = scanHeader (take (k - ?L) body) (0 + ?L) (decimalValue (itoa (length body)) 0)"
    by (intro scanHeader_digits itoa_digits) auto
  have "scanHeader (take (k - ?L) body) ?L (int (length body)) = (?L, int (length body))"
    using assms(1) by (cases body; cases "k - ?L") (simp_all add: startsBody_def)
  with scan0 have scan: "scanHeader (take k (encodeFrame body)) 0 0 = (?L, int (length body))"
    by (simp add: take itoa_value)
  have "wrap64 (int ?L + int (length body)) = int ?L + int (length body)"
    using assms(2) by (intro wrap64_id) (auto simp: encodeFrame_def)
  moreover have "int (length (take k (encodeFrame body))) < int ?L + int (length body)"
    using k by (simp add: encodeFrame_def)
  ultimately show ?thesis
    using scan by (simp add: checkMessage_def)
qed

lemma readFrom_frame:
  assumes "startsBody body" "int (length (encodeFrame body)) < 2 ^ 63"
  shows "readFrom c chunks (encodeFrame body @ extra)
           = ((case Unmarshal c body of Inl e \<Rightarrow> Err e | Inr msg \<Rightarrow> Ok msg), extra, chunks)"
proof -
  let ?L = "length (itoa (length body))"
  from assms(1) have pos: "body \<noteq> []" by (cases body) (simp_all add: startsBody_def)
  have discard: "bufferRead ?L (encodeFrame body @ extra)
                   = (Inr (itoa (length body)), body @ extra)"
    by (simp add: bufferRead_def encodeFrame_def itoa_not_Nil)
  have message: "bufferRead (length body) (body @ extra) = (Inr body, extra)"
    using pos by (simp add: bufferRead_def)
  have fits: "\<not> (9223372036854775808 \<le> int ?L + int (length body))"
    using assms(2) by (simp add: encodeFrame_def)
  show ?thesis
    by (subst readFrom.simps)
      (simp add: checkMessage_frame [OF assms] discard message fits split: sum.splits)
qed

text \<open>
  However the connection cuts a frame into chunks, \<open>read\<close> takes them up to the end
  of the frame and decodes the body.
\<close>

lemma readFrom_chunks:
  assumes "startsBody body" "int (length (encodeFrame body)) < 2 ^ 63"
  shows "buf @ concat chunks = encodeFrame body \<Longrightarrow> chunks = [] \<or> last chunks \<noteq> [] \<Longrightarrow>
         readFrom c (chunks @ later) buf
           = ((case Unmarshal c body of Inl e \<Rightarrow> Err e | Inr msg \<Rightarrow> Ok msg), [], later)"
proof (induction chunks arbitrary: buf)
  case Nil
  then have "buf = encodeFrame body" by simp
  then show ?case using readFrom_frame [OF assms, of c later "[]"] by simp
next
  case (Cons ch chs)
  from Cons.prems(2) have "concat (ch # chs) \<noteq> []"
    by (cases chs rule: rev_cases) auto
  with Cons.prems(1) have short: "length buf < length (encodeFrame body)"
    by (metis append_eq_conv_conj length_append length_greater_0_conv less_add_same_cancel1)
  from Cons.prems(1) have "buf = take (length buf) (encodeFrame body)"
    by (metis append_eq_conv_conj)
  then have none: "checkMessage buf = (False, 0, 0)"
    using checkMessage_prefix [OF assms short] by simp
  from Cons.prems(2) have last: "chs = [] \<or> last chs \<noteq> []" by auto
  have "readFrom c ((ch # chs) @ later) buf = readFrom c (chs @ later) (buf @ ch)"
    by (subst readFrom.simps) (simp add: none)
  also have "\<dots> = ((case Unmarshal c body of Inl e \<Rightarrow> Err e | Inr msg \<Rightarrow> Ok msg), [], later)"
    using Cons.prems(1) by (intro Cons.IH last) simp
  finally show ?case .
qed

lemma framed_body:
  assumes "framed c message"
  obtains body where "Marshal c message = Inr body" "startsBody body"
    "int (length (encodeFrame body)) < 2 ^ 63" "Unmarshal c body = Inr message"
    "frameOf c message = encodeFrame body"
  using assms by (auto simp: framed_def frameOf_def split: sum.splits)

lemma read_frame:
  assumes "framed c message" "buffer d = []" "conn_in d = frameOf c message # rest"
  shows "read c d = (Ok message, d\<lparr>buffer := [], conn_in := rest\<rparr>)"
proof -
  from assms(1) obtain body where b: "startsBody body"
      "int (length (encodeFrame body)) < 2 ^ 63" "Unmarshal c body = Inr message"
      "frameOf c message = encodeFrame body"
    by (rule framed_body)
  have "readFrom c ([encodeFrame body] @ rest) [] = (Ok message, [], rest)"
    using readFrom_chunks [OF b(1,2), of "[]" "[encodeFrame body]" c rest] b(1,3)
    by (cases body) (simp_all add: startsBody_def encodeFrame_def)
  then show ?thesis
    using assms(2,3) b(4) by (simp add: read_def)
qed

lemma writeFrame_framed:
  assumes "framed c message" "conn_up d"
  shows "writeFrame c message d = (Ok (), d\<lparr>conn_out := conn_out d @ [frameOf c message]\<rparr>)"
  using assms by (auto simp: framed_def frameOf_def writeFrame_def split: sum.splits)

lemma waitForResponse_response:
  assumes "framed c m" "buffer d = []" "conn_in d = frameOf c m # rest"
    "field m ''event'' = JNull" "int (length (responseQueue d)) = sint (callDepth d)"
  shows "waitForResponse c (Suc n) d = Some (Ok m, d\<lparr>buffer := [], conn_in := rest\<rparr>)"
  using assms(4,5) by (simp add: waitForResponse.simps read_frame [OF assms(1-3)])

section \<open>The wait loop\<close>

text \<open>
  Every blocking function keeps the registry, the state of the connection and,
  unless it panics, the call depth; the proof follows the fuel of the wait loop.
\<close>

lemma isPanic_simps [simp]: "isPanic (Panic p)" "\<not> isPanic (Ok x)" "\<not> isPanic (Err e)"
  by (simp_all add: isPanic_def)

lemma keeps_refl [simp]: "keeps d r d"
  by (simp add: keeps_def)

lemma keeps_trans:
  "keeps d r1 d1 \<Longrightarrow> keeps d1 r d2 \<Longrightarrow> \<not> isPanic r1 \<Longrightarrow> keeps d r d2"
  by (auto simp: keeps_def intro: prefix_order.trans)

lemma keeps_result: "keeps d r d' \<Longrightarrow> \<not> isPanic r \<or> isPanic r' \<Longrightarrow> keeps d r' d'"
  by (auto simp: keeps_def)

lemma keeps_read: "read c d = (r, d1) \<Longrightarrow> keeps d r' d1"
  by (auto simp: read_def keeps_def split: prod.splits)

lemma keeps_writeFrame: "writeFrame c m d = (r, d1) \<Longrightarrow> keeps d r' d1"
  by (auto simp: writeFrame_def keeps_def split: sum.splits if_splits)

lemma keeps_trace: "keeps d r d1 \<Longrightarrow> \<not> isPanic r \<Longrightarrow> keeps d r' (d1\<lparr>trace := trace d1 @ new\<rparr>)"
  by (auto simp: keeps_def intro: prefix_order.trans)

lemma preservesD: "preserves f \<Longrightarrow> f d = Some (r, d') \<Longrightarrow> keeps d r d'"
  by (simp add: preserves_def)

lemma preserves_waitForSuccessResponse:
  assumes "preserves wait"
  shows "preserves (waitForSuccessResponse wait)"
  unfolding preserves_def
proof (intro allI impI)
  fix d r d'
  assume run: "waitForSuccessResponse wait d = Some (r, d')"
  then obtain r0 where w: "wait d = Some (r0, d')" and p: "isPanic r0 \<longrightarrow> isPanic r"
    by (auto simp: waitForSuccessResponse_def split: option.splits result.splits json.splits if_splits)
  from preservesD [OF assms w] p show "keeps d r d'"
    by (auto simp: keeps_def)
qed

lemma preserves_writeForSuccessResponse:
  assumes "preserves wait"
  shows "preserves (writeForSuccessResponse c wait m)"
  unfolding preserves_def
proof (intro allI impI)
  fix d r d'
  assume run: "writeForSuccessResponse c wait m d = Some (r, d')"
  obtain r1 d1 where w: "writeFrame c m d = (r1, d1)" by (cases "writeFrame c m d")
  have np: "\<not> isPanic r1" using w by (auto simp: writeFrame_def split: sum.splits if_splits)
  show "keeps d r d'"
  proof (cases r1)
    case (Ok u)
    with run w have "waitForSuccessResponse wait d1 = Some (r, d')"
      by (simp add: writeForSuccessResponse_def)
    then have "keeps d1 r d'"
      using preserves_waitForSuccessResponse [OF assms] by (simp add: preserves_def)
    with keeps_writeFrame [OF w, of r1] show ?thesis using np by (rule keeps_trans)
  next
    case (Err e)
    with run w have "r = Err e" "d' = d1" by (simp_all add: writeForSuccessResponse_def)
    then show ?thesis using keeps_writeFrame [OF w] by simp
  next
    case (Panic p)
    with np show ?thesis by simp
  qed
qed

lemma preserves_runHandler:
  assumes "\<And>req. preserves (call req)"
  shows "preserves (runHandler call reqs)"
  unfolding preserves_def
proof (intro allI impI)
  fix d r d'
  show "runHandler call reqs d = Some (r, d') \<Longrightarrow> keeps d r d'"
  proof (induction reqs arbitrary: d)
    case Nil
    then show ?case by simp
  next
    case (Cons req reqs)
    from Cons.prems obtain r1 d1 where c: "call req d = Some (r1, d1)"
      by (auto split: option.splits)
    have k1: "keeps d r1 d1" using preservesD [OF assms c] .
    show ?case
    proof (cases "isPanic r1")
      case True
      with Cons.prems c have "isPanic r" "d' = d1"
        by (auto simp: isPanic_def split: result.splits)
      with k1 show ?thesis by (auto simp: keeps_def)
    next
      case False
      with Cons.prems c
      have "runHandler call reqs (d1\<lparr>trace := trace d1 @ [Returned (callDepth d1) r1]\<rparr>)
              = Some (r, d')"
        by (auto simp: isPanic_def split: result.splits)
      then have "keeps (d1\<lparr>trace := trace d1 @ [Returned (callDepth d1) r1]\<rparr>) r d'"
        by (rule Cons.IH)
      with keeps_trace [OF k1 False, of r1] show ?thesis
        using False by (rule keeps_trans)
    qed
  qed
qed

lemma preserves_dispatch:
  assumes "\<And>req. preserves (call req)"
  shows "preserves (dispatch call ls evt)"
  unfolding preserves_def
proof (intro allI impI)
  fix d r d'
  show "dispatch call ls evt d = Some (r, d') \<Longrightarrow> keeps d r d'"
  proof (induction ls arbitrary: d)
    case Nil
    then show ?case by simp
  next
    case (Cons hl ls)
    obtain h l where hl: "hl = (h, l)" by (cases hl)
    show ?case
    proof (cases "event l = Event evt \<and> (event l \<noteq> EventCommand \<or> command l = evCommand evt)")
      case False
      with Cons.prems hl have "dispatch call ls evt d = Some (r, d')" by auto
      then show ?thesis by (rule Cons.IH)
    next
      case True
      let ?d0 = "d\<lparr>trace := trace d @ [Dispatched evt (callDepth d)]\<rparr>"
      from Cons.prems hl True obtain r1 d1
        where h: "runHandler call (handler l evt) ?d0 = Some (r1, d1)"
        by (auto split: option.splits)
      have "keeps d (Ok ()) ?d0" by (simp add: keeps_def)
      moreover have "keeps ?d0 r1 d1"
        using preservesD [OF preserves_runHandler [OF assms] h] .
      ultimately have k1: "keeps d r1 d1" by (rule keeps_trans) simp
      show ?thesis
      proof (cases "isPanic r1")
        case True
        with Cons.prems hl \<open>event l = Event evt \<and> _\<close> h have "r = r1" "d' = d1"
          by (auto simp: isPanic_def split: result.splits)
        with k1 show ?thesis by simp
      next
        case False
        with Cons.prems hl True h have "dispatch call ls evt d1 = Some (r, d')"
          by (auto simp: isPanic_def split: result.splits)
        then have "keeps d1 r d'" by (rule Cons.IH)
        with k1 show ?thesis using False by (rule keeps_trans)
      qed
    qed
  qed
qed

lemma preserves_handleEvent:
  assumes "\<And>req. preserves (call req)"
  shows "preserves (handleEvent call msg)"
  unfolding preserves_def
  using preserves_dispatch [OF assms]
  by (auto simp: handleEvent_def preserves_def split: result.splits)

lemma preserves_waitForResponse: "preserves (waitForResponse c n)"
proof (induction n)
  case 0
  show ?case by (simp add: preserves_def waitForResponse.simps)
next
  case (Suc n)
  have call: "preserves (writeForSuccessResponse c (\<lambda>d. waitForResponse c n d) req)" for req
    using preserves_writeForSuccessResponse [OF Suc.IH] by simp
  show ?case
    unfolding preserves_def
  proof (intro allI impI)
    fix d r d'
    assume run: "waitForResponse c (Suc n) d = Some (r, d')"
    obtain r1 d1 where rd: "read c d = (r1, d1)" by (cases "read c d")
    have k1: "keeps d x d1" for x :: "Message result" using keeps_read [OF rd] .
    show "keeps d r d'"
    proof (cases r1)
      case (Err e)
      with run rd have "d' = d1" by (simp add: waitForResponse.simps)
      with k1 show ?thesis by simp
    next
      case (Panic p)
      with run rd have "d' = d1" by (simp add: waitForResponse.simps)
      with k1 show ?thesis by simp
    next
      case (Ok msg)
      show ?thesis
      proof (cases "field msg ''event'' = JNull")
        case True
        show ?thesis
        proof (cases "int (length (responseQueue d1)) = sint (callDepth d1)")
          case True
          with run rd Ok \<open>field msg ''event'' = JNull\<close> have "d' = d1"
            by (simp add: waitForResponse.simps)
          with k1 show ?thesis by simp
        next
          case False
          with run rd Ok \<open>field msg ''event'' = JNull\<close>
          have "waitForResponse c n (d1\<lparr>responseQueue := responseQueue d1 @ [msg]\<rparr>) = Some (r, d')"
            by (simp add: waitForResponse.simps)
          then have k: "keeps (d1\<lparr>responseQueue := responseQueue d1 @ [msg]\<rparr>) r d'"
            using Suc.IH by (simp add: preserves_def)
          have "keeps d (Ok msg) (d1\<lparr>responseQueue := responseQueue d1 @ [msg]\<rparr>)"
            using k1 [of "Ok msg"] by (simp add: keeps_def)
          then show ?thesis using k by (rule keeps_trans) simp
        qed
      next
        case False
        let ?d1 = "d1\<lparr>callDepth := callDepth d1 + 1\<rparr>"
        let ?call = "writeForSuccessResponse c (\<lambda>d. waitForResponse c n d)"
        from run rd Ok False obtain r2 d2
          where h: "handleEvent ?call msg ?d1 = Some (r2, d2)"
          by (auto simp: waitForResponse.simps split: option.splits)
        have k2: "keeps ?d1 r2 d2"
          using preservesD [OF preserves_handleEvent h] call by blast
        show ?thesis
        proof (cases r2)
          case (Panic p)
          with run rd Ok False h have "r = Panic p" "d' = d2"
            by (simp_all add: waitForResponse.simps)
          with k1 [of r] k2 show ?thesis by (auto simp: keeps_def intro: prefix_order.trans)
        next
          case (Err e)
          with run rd Ok False h have "d' = d2\<lparr>callDepth := callDepth d2 - 1\<rparr>"
            by (simp_all add: waitForResponse.simps)
          with k1 [of r] k2 Err show ?thesis
            by (auto simp: keeps_def intro: prefix_order.trans)
        next
          case (Ok u)
          let ?d3 = "d2\<lparr>callDepth := callDepth d2 - 1\<rparr>"
          have k3: "keeps d x ?d3" for x :: "Message result"
            using k1 [of x] k2 Ok by (auto simp: keeps_def intro: prefix_order.trans)
          show ?thesis
          proof (cases "int (length (responseQueue ?d3)) > sint (callDepth ?d3)")
            case True
            with run rd \<open>r1 = Ok msg\<close> False h Ok
            have "d' = ?d3 \<or> (\<exists>rest. d' = ?d3\<lparr>responseQueue := rest\<rparr>)"
              by (auto simp: waitForResponse.simps Let_def split: list.splits)
            with k3 [of r] show ?thesis by (auto simp: keeps_def)
          next
            case False
            with run rd \<open>r1 = Ok msg\<close> \<open>field msg ''event'' \<noteq> JNull\<close> h Ok
            have "waitForResponse c n ?d3 = Some (r, d')"
              by (simp add: waitForResponse.simps Let_def)
            then have "keeps ?d3 r d'" using Suc.IH by (simp add: preserves_def)
            with k3 [of "Ok msg"] show ?thesis by (rule keeps_trans) simp
          qed
        qed
      qed
    qed
  qed
qed

lemma preserves_request: "preserves (request c n m)"
  unfolding request_def by (rule preserves_writeForSuccessResponse) (rule preserves_waitForResponse)

lemma preserves_waitForEvent: "preserves (waitForEvent c n)"
  unfolding preserves_def
proof (intro allI impI)
  fix d r d'
  assume run: "waitForEvent c n d = Some (r, d')"
  obtain r1 d1 where rd: "read c d = (r1, d1)" by (cases "read c d")
  have k1: "keeps d x d1" for x :: "unit result" using keeps_read [OF rd] .
  show "keeps d r d'"
  proof (cases "\<exists>msg. r1 = Ok msg \<and> field msg ''event'' \<noteq> JNull")
    case False
    with run rd have "d' = d1"
      by (cases r1) (auto simp: waitForEvent_def split: if_splits)
    with k1 show ?thesis by simp
  next
    case True
    then obtain msg where "r1 = Ok msg" "field msg ''event'' \<noteq> JNull" by blast
    with run rd have "handleEvent (request c n) msg d1 = Some (r, d')"
      by (simp add: waitForEvent_def)
    then have "keeps d1 r d'"
      using preserves_handleEvent [of "request c n" msg] preserves_request
      by (simp add: preserves_def)
    with k1 [of "Ok ()"] show ?thesis by (rule keeps_trans) simp
  qed
qed

lemma preserves_Listen: "preserves (Listen c n)"
proof (induction n)
  case 0
  show ?case by (simp add: preserves_def)
next
  case (Suc n)
  show ?case
    unfolding preserves_def
  proof (intro allI impI)
    fix d r d'
    assume run: "Listen c (Suc n) d = Some (r, d')"
    then obtain r1 d1 where w: "waitForEvent c n d = Some (r1, d1)"
      by (auto split: option.splits)
    have k1: "keeps d r1 d1" using preservesD [OF preserves_waitForEvent w] .
    show "keeps d r d'"
    proof (cases r1)
      case (Ok u)
      with run w have "Listen c n d1 = Some (r, d')" by simp
      then have "keeps d1 r d'" using Suc.IH by (simp add: preserves_def)
      with k1 show ?thesis by (rule keeps_trans) (simp add: Ok)
    next
      case (Err e)
      with run w have "r = r1" "d' = d1" by simp_all
      with k1 show ?thesis by simp
    next
      case (Panic p)
      with run w have "r = r1" "d' = d1" by simp_all
      with k1 show ?thesis by simp
    qed
  qed
qed

lemma dispatch_first:
  assumes call: "\<And>req. preserves (call req)"
  shows "list_ex (\<lambda>hl. matching (snd hl) evt) ls \<Longrightarrow> dispatch call ls evt d = Some (r, d') \<Longrightarrow>
         \<exists>rest. trace d' = trace d @ Dispatched evt (callDepth d) # rest"
proof (induction ls)
  case Nil
  then show ?case by simp
next
  case (Cons hl ls)
  obtain h l where hl: "hl = (h, l)" by (cases hl)
  show ?case
  proof (cases "matching l evt")
    case False
    with Cons.prems hl have "list_ex (\<lambda>hl. matching (snd hl) evt) ls"
      and "dispatch call ls evt d = Some (r, d')"
      by (auto simp: matching_def)
    then show ?thesis by (rule Cons.IH)
  next
    case True
    let ?d0 = "d\<lparr>trace := trace d @ [Dispatched evt (callDepth d)]\<rparr>"
    from Cons.prems(2) hl True obtain r1 d1
      where h: "runHandler call (handler l evt) ?d0 = Some (r1, d1)"
      by (auto simp: matching_def split: option.splits)
    have p1: "prefix (trace ?d0) (trace d1)"
      using preservesD [OF preserves_runHandler [OF call] h] by (simp add: keeps_def)
    have "prefix (trace d1) (trace d')"
    proof (cases "isPanic r1")
      case True
      with Cons.prems(2) hl \<open>matching l evt\<close> h have "d' = d1"
        by (auto simp: matching_def isPanic_def split: result.splits)
      then show ?thesis by simp
    next
      case False
      with Cons.prems(2) hl True h have "dispatch call ls evt d1 = Some (r, d')"
        by (auto simp: matching_def isPanic_def split: result.splits)
      then show ?thesis
        using preservesD [OF preserves_dispatch [OF call]] by (auto simp: keeps_def)
    qed
    with p1 have "prefix (trace d @ [Dispatched evt (callDepth d)]) (trace d')"
      by (auto intro: prefix_order.trans)
    then show ?thesis by (auto simp: prefix_def)
  qed
qed

lemma waitForResponse_event_result:
  assumes rd: "read c d = (Ok msg, d1)" and ev: "field msg ''event'' \<noteq> JNull"
    and run: "waitForResponse c (Suc n) d = Some (r, d')"
  obtains r2 d2 where
    "handleEvent (request c n) msg (d1\<lparr>callDepth := callDepth d1 + 1\<rparr>) = Some (r2, d2)"
    "prefix (trace d2) (trace d')"
proof -
  let ?d1 = "d1\<lparr>callDepth := callDepth d1 + 1\<rparr>"
  have req: "writeForSuccessResponse c (\<lambda>d. waitForResponse c n d) = request c n"
    by (simp add: request_def)
  from run rd ev obtain r2 d2 where h: "handleEvent (request c n) msg ?d1 = Some (r2, d2)"
    by (auto simp: waitForResponse.simps req split: option.splits)
  have "prefix (trace d2) (trace d')"
  proof (cases "\<exists>u. r2 = Ok u \<and> \<not> int (length (responseQueue d2)) > sint (callDepth d2 - 1)")
    case True
    with run rd ev h have "waitForResponse c n (d2\<lparr>callDepth := callDepth d2 - 1\<rparr>) = Some (r, d')"
      by (auto simp: waitForResponse.simps req Let_def)
    then show ?thesis
      using preservesD [OF preserves_waitForResponse] by (fastforce simp: keeps_def)
  next
    case False
    with run rd ev h have "trace d' = trace d2"
      by (cases r2) (auto simp: waitForResponse.simps req Let_def split: list.splits if_splits)
    then show ?thesis by simp
  qed
  with h show ?thesis by (rule that)
qed


text \<open>
  Runs on a connection whose next frames are known. The weak congruence rules make
  the simplifier evaluate a \<open>case\<close> only once its argument is a constructor.
\<close>

lemmas eval_cong =
  option.case_cong_weak prod.case_cong_weak result.case_cong_weak list.case_cong_weak
  sum.case_cong_weak json.case_cong_weak

lemma read_next:
  assumes "framed c m"
  shows "read c \<lparr>conn_in = frameOf c m # rest, conn_out = out, conn_up = up, buffer = [],
                 listeners = ls, lastHandle = lh, callDepth = cd, responseQueue = q,
                 trace = tr\<rparr>
         = (Ok m, \<lparr>conn_in = rest, conn_out = out, conn_up = up, buffer = [],
                   listeners = ls, lastHandle = lh, callDepth = cd, responseQueue = q,
                   trace = tr\<rparr>)"
  using read_frame [OF assms, of _ rest] by simp

lemma write_next:
  assumes "framed c m"
  shows "writeFrame c m \<lparr>conn_in = inp, conn_out = out, conn_up = True, buffer = buf,
                 listeners = ls, lastHandle = lh, callDepth = cd, responseQueue = q,
                 trace = tr\<rparr>
         = (Ok (), \<lparr>conn_in = inp, conn_out = out @ [frameOf c m], conn_up = True, buffer = buf,
                   listeners = ls, lastHandle = lh, callDepth = cd, responseQueue = q,
                   trace = tr\<rparr>)"
  using writeFrame_framed [OF assms] by simp

lemma nested_scenario:
  assumes fr: "framed c E" "framed c R1" "framed c R2" "framed c req"
    and ev: "field E ''event'' \<noteq> JNull" "makeEvent E = Ok evt"
    and resp: "field R1 ''event'' = JNull" "field R2 ''event'' = JNull"
      "field R2 ''success'' = JBool True"
    and l: "matching l evt" "handler l evt = [req]"
  shows "waitForResponse c (Suc (Suc (Suc n)))
           \<lparr>conn_in = frameOf c E # frameOf c R1 # frameOf c R2 # rest, conn_out = out,
            conn_up = True, buffer = [], listeners = [(h, l)], lastHandle = lh,
            callDepth = 0, responseQueue = [], trace = tr\<rparr>
         = Some (Ok R1,
             \<lparr>conn_in = rest, conn_out = out @ [frameOf c req],
              conn_up = True, buffer = [], listeners = [(h, l)], lastHandle = lh,
              callDepth = 0, responseQueue = [],
              trace = tr @ [Dispatched evt 1, Returned 1 (Ok R2)]\<rparr>)"
  using l(1) unfolding matching_def
  by (simp add: waitForResponse.simps read_next write_next fr ev resp l(2)
        handleEvent_def writeForSuccessResponse_def waitForSuccessResponse_def
      cong: eval_cong)

lemma listen_scenario:
  assumes fr: "framed c E" "framed c R" "framed c req"
    and ev: "field E ''event'' \<noteq> JNull" "makeEvent E = Ok evt"
    and resp: "field R ''event'' = JNull" "field R ''success'' = JBool True"
    and l: "matching l evt" "handler l evt = [req]"
  shows "waitForEvent c (Suc n)
           \<lparr>conn_in = frameOf c E # frameOf c R # rest, conn_out = out,
            conn_up = True, buffer = [], listeners = [(h, l)], lastHandle = lh,
            callDepth = 0, responseQueue = [], trace = tr\<rparr>
         = Some (Ok (),
             \<lparr>conn_in = rest, conn_out = out @ [frameOf c req],
              conn_up = True, buffer = [], listeners = [(h, l)], lastHandle = lh,
              callDepth = 0, responseQueue = [],
              trace = tr @ [Dispatched evt 0, Returned 0 (Ok R)]\<rparr>)"
  using l(1) unfolding matching_def
  by (simp add: waitForEvent_def request_def waitForResponse.simps read_next write_next fr ev resp l(2)
        handleEvent_def writeForSuccessResponse_def waitForSuccessResponse_def
      cong: eval_cong)

lemma handle_scenario:
  assumes fr: "framed c R" "framed c req"
    and ev: "makeEvent E = Ok evt"
    and resp: "field R ''event'' = JNull" "field R ''success'' = JBool True"
    and l: "matching l evt" "handler l evt = [req]"
  shows "handleEvent (request c (Suc n)) E
           \<lparr>conn_in = frameOf c R # rest, conn_out = out,
            conn_up = True, buffer = [], listeners = [(h, l)], lastHandle = lh,
            callDepth = 0, responseQueue = [], trace = tr\<rparr>
         = Some (Ok (),
             \<lparr>conn_in = rest, conn_out = out @ [frameOf c req],
              conn_up = True, buffer = [], listeners = [(h, l)], lastHandle = lh,
              callDepth = 0, responseQueue = [],
              trace = tr @ [Dispatched evt 0, Returned 0 (Ok R)]\<rparr>)"
  using l(1) unfolding matching_def
  by (simp add: request_def waitForResponse.simps read_next write_next fr ev resp l(2)
        handleEvent_def writeForSuccessResponse_def waitForSuccessResponse_def
      cong: eval_cong)

lemma framed_examples:
  "framed jsonCodec privmsgEvent" "framed jsonCodec nickReply" "framed jsonCodec networksReply"
  "framed jsonCodec nickRequest" "framed jsonCodec networksRequest"
  by code_simp+

lemma makeEvent_privmsgEvent: "makeEvent privmsgEvent = Ok privmsgEvt"
  by code_simp

lemma field_examples:
  "field privmsgEvent ''event'' \<noteq> JNull" "field nickReply ''event'' = JNull"
  "field networksReply ''event'' = JNull" "field nickReply ''success'' = JBool True"
  "field networksReply ''success'' = JBool True"
  by code_simp+

lemma matching_replyListener:
  "matching replyListener privmsgEvt" "handler replyListener privmsgEvt = [nickRequest]"
  by (simp_all add: matching_def replyListener_def privmsgEvt_def EventCommand_def)

subsection \<open>Fuel\<close>

lemma waitForSuccessResponse_mono:
  assumes "\<And>d x. wait d = Some x \<Longrightarrow> wait' d = Some x"
    and "waitForSuccessResponse wait d = Some y"
  shows "waitForSuccessResponse wait' d = Some y"
proof -
  from assms(2) obtain x where w: "wait d = Some x"
    by (auto simp: waitForSuccessResponse_def split: option.splits)
  with assms(1) have "wait' d = Some x" by blast
  with w assms(2) show ?thesis by (simp add: waitForSuccessResponse_def)
qed

lemma writeForSuccessResponse_mono:
  assumes "\<And>d x. wait d = Some x \<Longrightarrow> wait' d = Some x"
    and "writeForSuccessResponse c wait m d = Some y"
  shows "writeForSuccessResponse c wait' m d = Some y"
proof -
  obtain r d1 where w: "writeFrame c m d = (r, d1)" by (cases "writeFrame c m d")
  show ?thesis
  proof (cases r)
    case (Ok u)
    with assms(2) w have "waitForSuccessResponse wait d1 = Some y"
      by (simp add: writeForSuccessResponse_def)
    then have "waitForSuccessResponse wait' d1 = Some y"
      using assms(1) by (rule waitForSuccessResponse_mono [rotated])
    with w Ok show ?thesis by (simp add: writeForSuccessResponse_def)
  next
    case (Err e)
    with assms(2) w show ?thesis by (simp add: writeForSuccessResponse_def)
  next
    case (Panic p)
    with assms(2) w show ?thesis by (simp add: writeForSuccessResponse_def)
  qed
qed

lemma runHandler_mono:
  assumes "\<And>req d x. call req d = Some x \<Longrightarrow> call' req d = Some x"
  shows "runHandler call reqs d = Some y \<Longrightarrow> runHandler call' reqs d = Some y"
proof (induction reqs arbitrary: d)
  case Nil
  then show ?case by simp
next
  case (Cons req reqs)
  from Cons.prems obtain r d1 where c: "call req d = Some (r, d1)"
    by (auto split: option.splits)
  then have c': "call' req d = Some (r, d1)" by (rule assms)
  show ?case
  proof (cases r)
    case (Panic p)
    with Cons.prems c c' show ?thesis by simp
  next
    case (Ok m)
    with Cons.prems c
    have "runHandler call reqs (d1\<lparr>trace := trace d1 @ [Returned (callDepth d1) r]\<rparr>) = Some y"
      by simp
    then have "runHandler call' reqs (d1\<lparr>trace := trace d1 @ [Returned (callDepth d1) r]\<rparr>) = Some y"
      by (rule Cons.IH)
    with c' Ok show ?thesis by simp
  next
    case (Err e)
    with Cons.prems c
    have "runHandler call reqs (d1\<lparr>trace := trace d1 @ [Returned (callDepth d1) r]\<rparr>) = Some y"
      by simp
    then have "runHandler call' reqs (d1\<lparr>trace := trace d1 @ [Returned (callDepth d1) r]\<rparr>) = Some y"
      by (rule Cons.IH)
    with c' Err show ?thesis by simp
  qed
qed

lemma dispatch_mono:
  assumes "\<And>req d x. call req d = Some x \<Longrightarrow> call' req d = Some x"
  shows "dispatch call ls evt d = Some y \<Longrightarrow> dispatch call' ls evt d = Some y"
proof (induction ls arbitrary: d)
  case Nil
  then show ?case by simp
next
  case (Cons hl ls)
  obtain h l where hl: "hl = (h, l)" by (cases hl)
  show ?case
  proof (cases "event l = Event evt \<and> (event l \<noteq> EventCommand \<or> command l = evCommand evt)")
    case False
    with Cons.prems hl have "dispatch call ls evt d = Some y" by auto
    then have "dispatch call' ls evt d = Some y" by (rule Cons.IH)
    with False hl show ?thesis by auto
  next
    case True
    let ?d0 = "d\<lparr>trace := trace d @ [Dispatched evt (callDepth d)]\<rparr>"
    from Cons.prems hl True obtain r d1
      where h: "runHandler call (handler l evt) ?d0 = Some (r, d1)"
      by (auto split: option.splits)
    then have h': "runHandler call' (handler l evt) ?d0 = Some (r, d1)"
      using assms by (rule runHandler_mono [rotated])
    show ?thesis
    proof (cases "isPanic r")
      case True
      with Cons.prems hl \<open>event l = Event evt \<and> _\<close> h h' show ?thesis
        by (auto simp: isPanic_def split: result.splits)
    next
      case False
      with Cons.prems hl True h have "dispatch call ls evt d1 = Some y"
        by (auto simp: isPanic_def split: result.splits)
      then have "dispatch call' ls evt d1 = Some y" by (rule Cons.IH)
      with False hl True h' show ?thesis
        by (auto simp: isPanic_def split: result.splits)
    qed
  qed
qed

lemma handleEvent_mono:
  assumes "\<And>req d x. call req d = Some x \<Longrightarrow> call' req d = Some x"
    and "handleEvent call msg d = Some y"
  shows "handleEvent call' msg d = Some y"
  using assms(2) dispatch_mono [of call call', OF assms(1)]
  by (auto simp: handleEvent_def split: result.splits)

text \<open>
  More fuel does not change a result: \<open>None\<close> only ever means that the fuel was
  used up.
\<close>

lemma waitForResponse_Suc:
  "waitForResponse c n d = Some y \<Longrightarrow> waitForResponse c (Suc n) d = Some y"
proof (induction n arbitrary: d y)
  case 0
  then show ?case by (simp add: waitForResponse.simps)
next
  case (Suc n)
  let ?call = "writeForSuccessResponse c (\<lambda>d. waitForResponse c n d)"
  let ?call' = "writeForSuccessResponse c (\<lambda>d. waitForResponse c (Suc n) d)"
  have call: "?call' req d = Some x" if "?call req d = Some x" for req d x
    using that by (rule writeForSuccessResponse_mono [rotated]) (rule Suc.IH)
  obtain r1 d1 where rd: "read c d = (r1, d1)" by (cases "read c d")
  show ?case
  proof (cases r1)
    case (Err e)
    with rd have "waitForResponse c (Suc n) d = Some (r1, d1)"
      and "waitForResponse c (Suc (Suc n)) d = Some (r1, d1)"
      by (simp_all add: waitForResponse.simps)
    with Suc.prems show ?thesis by simp
  next
    case (Panic p)
    with rd have "waitForResponse c (Suc n) d = Some (r1, d1)"
      and "waitForResponse c (Suc (Suc n)) d = Some (r1, d1)"
      by (simp_all add: waitForResponse.simps)
    with Suc.prems show ?thesis by simp
  next
    case (Ok msg)
    show ?thesis
    proof (cases "field msg ''event'' = JNull")
      case True
      show ?thesis
      proof (cases "int (length (responseQueue d1)) = sint (callDepth d1)")
        case True
        with rd Ok \<open>field msg ''event'' = JNull\<close>
        have "waitForResponse c (Suc n) d = Some (r1, d1)"
          and "waitForResponse c (Suc (Suc n)) d = Some (r1, d1)"
          by (simp_all add: waitForResponse.simps)
        with Suc.prems show ?thesis by simp
      next
        case False
        with Suc.prems rd Ok True
        have "waitForResponse c n (d1\<lparr>responseQueue := responseQueue d1 @ [msg]\<rparr>) = Some y"
          by (simp add: waitForResponse.simps)
        then have "waitForResponse c (Suc n) (d1\<lparr>responseQueue := responseQueue d1 @ [msg]\<rparr>)
                     = Some y"
          by (rule Suc.IH)
        with rd Ok True False show ?thesis
          by (subst waitForResponse.simps) simp
      qed
    next
      case False
      let ?d1 = "d1\<lparr>callDepth := callDepth d1 + 1\<rparr>"
      from Suc.prems rd Ok False obtain r2 d2
        where h: "handleEvent ?call msg ?d1 = Some (r2, d2)"
        by (auto simp: waitForResponse.simps split: option.splits)
      then have h': "handleEvent ?call' msg ?d1 = Some (r2, d2)"
        using call by (rule handleEvent_mono [rotated])
      let ?d3 = "d2\<lparr>callDepth := callDepth d2 - 1\<rparr>"
      show ?thesis
      proof (cases "\<exists>u. r2 = Ok u \<and> \<not> int (length (responseQueue ?d3)) > sint (callDepth ?d3)")
        case True
        with Suc.prems rd Ok False h have "waitForResponse c n ?d3 = Some y"
          by (auto simp: waitForResponse.simps Let_def)
        then have "waitForResponse c (Suc n) ?d3 = Some y" by (rule Suc.IH)
        with rd Ok False h' True show ?thesis
          by (subst waitForResponse.simps) (auto simp: Let_def)
      next
        case no: False
        have eq: "waitForResponse c (Suc (Suc n)) d
                = (case r2 of
                     Panic p \<Rightarrow> Some (Panic p, d2)
                   | Err e \<Rightarrow> Some (Err e, ?d3)
                   | Ok u \<Rightarrow> (case responseQueue ?d3 of
                                [] \<Rightarrow> Some (Panic IndexOutOfRange, ?d3)
                              | m # rest \<Rightarrow> Some (Ok m, ?d3\<lparr>responseQueue := rest\<rparr>)))"
          using rd Ok False h' no
          by (subst waitForResponse.simps) (auto simp: Let_def split: result.splits)
        have "waitForResponse c (Suc n) d
                = (case r2 of
                     Panic p \<Rightarrow> Some (Panic p, d2)
                   | Err e \<Rightarrow> Some (Err e, ?d3)
                   | Ok u \<Rightarrow> (case responseQueue ?d3 of
                                [] \<Rightarrow> Some (Panic IndexOutOfRange, ?d3)
                              | m # rest \<Rightarrow> Some (Ok m, ?d3\<lparr>responseQueue := rest\<rparr>)))"
          using rd Ok False h no
          by (subst waitForResponse.simps) (auto simp: Let_def split: result.splits)
        with eq Suc.prems show ?thesis by simp
      qed
    qed
  qed
qed

lemma waitForResponse_mono:
  "waitForResponse c n d = Some y \<Longrightarrow> n \<le> m \<Longrightarrow> waitForResponse c m d = Some y"
  by (induction m) (auto simp: le_Suc_eq waitForResponse_Suc)

section \<open>The registry\<close>

text \<open>
  A registration returns the value of \<open>lastHandle\<close> and adds one to it; nothing else
  changes the counter.
\<close>

lemma register_handle:
  "register ldata d = (r, d') \<Longrightarrow> r = Ok (lastHandle d) \<and> lastHandle d' = lastHandle d + 1"
  by (auto simp: register_def Let_def)

lemma Subscribe_handle:
  assumes "Subscribe c n ev h d = Some (r, d')"
  shows "case r of Ok handle \<Rightarrow> handle = lastHandle d \<and> lastHandle d' = lastHandle d + 1
         | _ \<Rightarrow> lastHandle d' = lastHandle d"
proof -
  from assms obtain r1 d1 where q: "request c n (subscribeRequest ev) d = Some (r1, d1)"
    by (auto simp: Subscribe_def Let_def split: option.splits)
  have same: "lastHandle d1 = lastHandle d"
    using preservesD [OF preserves_request q] by (simp add: keeps_def)
  show ?thesis
    using assms q same
    by (cases r1) (auto simp: Subscribe_def Let_def register_def)
qed

lemma SubscribeCommand_handle:
  assumes "SubscribeCommand c n cmd scope h d = Some (r, d')"
  shows "case r of Ok handle \<Rightarrow> handle = lastHandle d \<and> lastHandle d' = lastHandle d + 1
         | _ \<Rightarrow> lastHandle d' = lastHandle d"
proof (cases "ToCommandSlice scope")
  case (Inl e)
  with assms show ?thesis by (auto simp: SubscribeCommand_def Let_def)
next
  case (Inr scopeSlice)
  with assms obtain r1 d1
    where q: "request c n (commandRequest cmd scopeSlice) d = Some (r1, d1)"
    by (auto simp: SubscribeCommand_def Let_def split: option.splits)
  have same: "lastHandle d1 = lastHandle d"
    using preservesD [OF preserves_request q] by (simp add: keeps_def)
  show ?thesis
    using assms q same Inr
    by (cases r1) (auto simp: SubscribeCommand_def Let_def register_def)
qed

lemma Unsubscribe_handle:
  assumes "Unsubscribe c n handle d = Some (r, d')"
  shows "lastHandle d' = lastHandle d"
proof (cases "map_of (listeners d) handle")
  case None
  with assms show ?thesis by (simp add: Unsubscribe_def)
next
  case (Some l)
  let ?d1 = "d\<lparr>listeners := AList.delete handle (listeners d)\<rparr>"
  show ?thesis
  proof (cases "event l \<noteq> ''COMMAND''
                \<and> \<not> list_ex (\<lambda>hl. event (snd hl) = event l) (listeners ?d1)")
    case False
    with assms Some have "d' = ?d1" by (auto simp: Unsubscribe_def Let_def split: if_splits)
    then show ?thesis by simp
  next
    case True
    with assms Some obtain r1 d1
      where q: "request c n (unsubscribeRequest (event l)) ?d1 = Some (r1, d1)" and "d' = d1"
      by (auto simp: Unsubscribe_def Let_def split: option.splits result.splits if_splits)
    then show ?thesis
      using preservesD [OF preserves_request q] by (simp add: keeps_def)
  qed
qed

lemma upt_Suc_shift: "map f [0..<Suc k] = f 0 # map (\<lambda>i. f (Suc i)) [0..<k]"
  by (simp add: upt_conv_Cons map_Suc_upt [symmetric] del: upt_Suc)

lemma run_handles:
  "run c n ops d = (hs, d') \<Longrightarrow>
   hs = map (\<lambda>i. lastHandle d + of_nat i) [0..<length hs]
   \<and> lastHandle d' = lastHandle d + of_nat (length hs)"
proof (induction ops arbitrary: d hs d')
  case Nil
  then show ?case by simp
next
  case (Cons x ops)
  have stay: "hs = map (\<lambda>i. lastHandle d + of_nat i) [0..<length hs]
      \<and> lastHandle d' = lastHandle d + of_nat (length hs)"
    if "run c n ops d1 = (hs, d')" "lastHandle d1 = lastHandle d" for d1
    using Cons.IH [OF that(1)] that(2) by simp
  have stop: "hs = map (\<lambda>i. lastHandle d + of_nat i) [0..<length hs]
      \<and> lastHandle d' = lastHandle d + of_nat (length hs)"
    if "hs = []" "lastHandle d' = lastHandle d"
    using that by simp
  have grow: "hs = map (\<lambda>i. lastHandle d + of_nat i) [0..<length hs]
      \<and> lastHandle d' = lastHandle d + of_nat (length hs)"
    if "run c n ops d1 = (hs1, d')" "lastHandle d1 = lastHandle d + 1"
       "hs = lastHandle d # hs1" for d1 hs1
  proof -
    from Cons.IH [OF that(1)] that(2)
    have 1: "hs1 = map (\<lambda>i. lastHandle d + 1 + of_nat i) [0..<length hs1]"
      and 2: "lastHandle d' = lastHandle d + 1 + of_nat (length hs1)"
      by simp_all
    have "map (\<lambda>i. lastHandle d + of_nat i) [0..<Suc (length hs1)]
            = lastHandle d # map (\<lambda>i. lastHandle d + 1 + of_nat i) [0..<length hs1]"
      by (simp add: upt_Suc_shift add.assoc del: upt_Suc)
    with 1 2 that(3) show ?thesis by (simp add: add.assoc del: upt_Suc)
  qed
  show ?case
  proof (cases x)
    case (OpSubscribe ev h)
    show ?thesis
    proof (cases "Subscribe c n ev h d")
      case None
      with Cons.prems OpSubscribe show ?thesis by (intro stop) auto
    next
      case (Some rd)
      obtain r d1 where rd: "rd = (r, d1)" by (cases rd)
      note s = Subscribe_handle [OF Some [unfolded rd]]
      show ?thesis
      proof (cases r)
        case (Ok handle)
        with Cons.prems OpSubscribe Some rd s obtain hs1
          where "run c n ops d1 = (hs1, d')" "hs = lastHandle d # hs1"
          by (auto split: prod.splits)
        with s Ok show ?thesis by (intro grow [of d1 hs1]) auto
      next
        case (Err e)
        with Cons.prems OpSubscribe Some rd s show ?thesis by (intro stay [of d1]) auto
      next
        case (Panic p)
        with Cons.prems OpSubscribe Some rd s show ?thesis by (intro stop) auto
      qed
    qed
  next
    case (OpSubscribeCommand cmd scope h)
    show ?thesis
    proof (cases "SubscribeCommand c n cmd scope h d")
      case None
      with Cons.prems OpSubscribeCommand show ?thesis by (intro stop) auto
    next
      case (Some rd)
      obtain r d1 where rd: "rd = (r, d1)" by (cases rd)
      note s = SubscribeCommand_handle [OF Some [unfolded rd]]
      show ?thesis
      proof (cases r)
        case (Ok handle)
        with Cons.prems OpSubscribeCommand Some rd s obtain hs1
          where "run c n ops d1 = (hs1, d')" "hs = lastHandle d # hs1"
          by (auto split: prod.splits)
        with s Ok show ?thesis by (intro grow [of d1 hs1]) auto
      next
        case (Err e)
        with Cons.prems OpSubscribeCommand Some rd s show ?thesis
          by (intro stay [of d1]) auto
      next
        case (Panic p)
        with Cons.prems OpSubscribeCommand Some rd s show ?thesis by (intro stop) auto
      qed
    qed
  next
    case (OpUnsubscribe handle)
    show ?thesis
    proof (cases "Unsubscribe c n handle d")
      case None
      with Cons.prems OpUnsubscribe show ?thesis by (intro stop) auto
    next
      case (Some rd)
      obtain r d1 where rd: "rd = (r, d1)" by (cases rd)
      note s = Unsubscribe_handle [OF Some [unfolded rd]]
      show ?thesis
      proof (cases "isPanic r")
        case True
        with Cons.prems OpUnsubscribe Some rd s show ?thesis
          by (intro stop) (auto simp: isPanic_def split: result.splits)
      next
        case False
        with Cons.prems OpUnsubscribe Some rd s show ?thesis
          by (intro stay [of d1]) (auto simp: isPanic_def split: result.splits)
      qed
    qed
  next
    case (OpRequest message)
    show ?thesis
    proof (cases "request c n message d")
      case None
      with Cons.prems OpRequest show ?thesis by (intro stop) auto
    next
      case (Some rd)
      obtain r d1 where rd: "rd = (r, d1)" by (cases rd)
      have s: "lastHandle d1 = lastHandle d"
        using preservesD [OF preserves_request Some [unfolded rd]] by (simp add: keeps_def)
      show ?thesis
      proof (cases "isPanic r")
        case True
        with Cons.prems OpRequest Some rd s show ?thesis
          by (intro stop) (auto simp: isPanic_def split: result.splits)
      next
        case False
        with Cons.prems OpRequest Some rd s show ?thesis
          by (intro stay [of d1]) (auto simp: isPanic_def split: result.splits)
      qed
    qed
  next
    case OpListen
    show ?thesis
    proof (cases "Listen c n d")
      case None
      with Cons.prems OpListen show ?thesis by (intro stop) auto
    next
      case (Some rd)
      obtain r d1 where rd: "rd = (r, d1)" by (cases rd)
      have s: "lastHandle d1 = lastHandle d"
        using preservesD [OF preserves_Listen Some [unfolded rd]] by (simp add: keeps_def)
      show ?thesis
      proof (cases "isPanic r")
        case True
        with Cons.prems OpListen Some rd s show ?thesis
          by (intro stop) (auto simp: isPanic_def split: result.splits)
      next
        case False
        with Cons.prems OpListen Some rd s show ?thesis
          by (intro stay [of d1]) (auto simp: isPanic_def split: result.splits)
      qed
    qed
  qed
qed

lemma sint_handle: "k < 2 ^ 63 \<Longrightarrow> sint (of_nat k :: 64 word) = int k"
proof -
  assume "k < 2 ^ 63"
  then have "int k < 2 ^ 63" by (metis of_nat_less_iff of_nat_numeral of_nat_power)
  then show ?thesis
    by (simp add: signed_of_nat signed_take_bit_int_eq_self)
qed

lemma update_fresh: "k \<notin> fst ` set al \<Longrightarrow> AList.update k v al = al @ [(k, v)]"
  by (induction al) auto

lemma map_of_fresh: "k \<notin> fst ` set al \<Longrightarrow> map_of (al @ bl) k = map_of bl k"
  by (induction al) auto

lemma delete_append: "AList.delete k (al @ bl) = AList.delete k al @ AList.delete k bl"
  by (simp add: AList.delete_eq)

lemma request_next:
  assumes "framed c req" "framed c R" "field R ''event'' = JNull"
    "field R ''success'' = JBool True" "int (length q) = sint cd"
  shows "request c (Suc n) req
           \<lparr>conn_in = frameOf c R # rest, conn_out = out, conn_up = True, buffer = [],
            listeners = ls, lastHandle = lh, callDepth = cd, responseQueue = q, trace = tr\<rparr>
         = Some (Ok R,
             \<lparr>conn_in = rest, conn_out = out @ [frameOf c req], conn_up = True, buffer = [],
              listeners = ls, lastHandle = lh, callDepth = cd, responseQueue = q, trace = tr\<rparr>)"
  using assms
  by (simp add: request_def waitForResponse.simps read_next write_next
        writeForSuccessResponse_def waitForSuccessResponse_def
      cong: eval_cong)

lemma framed_requests:
  "framed jsonCodec (subscribeRequest ''PRIVMSG'')"
  "framed jsonCodec (unsubscribeRequest ''PRIVMSG'')"
  "framed jsonCodec okReply"
  by code_simp+

lemma field_okReply:
  "field okReply ''event'' = JNull" "field okReply ''success'' = JBool True"
  by code_simp+

lemma client_handles:
  "fst (run jsonCodec 1 client (connected (replicate 4 (frameOf jsonCodec okReply)))) = [1, 2, 3]"
  by code_simp

section \<open>Scopes\<close>

text \<open>
  Claim C8, as amended. \<open>ToSlice\<close> gives the empty sequence when the network is not
  set, in particular for the universal scope; otherwise the network, followed by the
  receiver if it is set, followed by the sender only when the receiver is set too.
  The sender is never encoded without the receiver, nor the receiver without the
  network.
\<close>

theorem ToSlice_nested:
  "(Network scope = None \<longrightarrow> ToSlice scope = [])
   \<and> (IsAll scope \<longrightarrow> ToSlice scope = [])
   \<and> (\<forall>network. Network scope = Some network \<longrightarrow>
         ToSlice scope =
           network # (case Receiver scope of
                        None \<Rightarrow> []
                      | Some receiver \<Rightarrow>
                          receiver # (case Sender scope of
                                        None \<Rightarrow> []
                                      | Some sender \<Rightarrow> [sender])))"
  by (auto simp: ToSlice_def IsAll_def split: option.splits)

theorem ToSlice_nested_witness:
  "ToSlice \<lparr>Network = None, Receiver = Some ''#chan'', Sender = None\<rparr> = []
   \<and> ToSlice NewUniversalScope = []
   \<and> ToSlice (NewScope ''net'' ''#chan'' ''alice'') = [''net'', ''#chan'', ''alice'']
   \<and> ToSlice (NewSenderScope ''net'' ''alice'') = [''net'']"
  using ToSlice_nested [of "\<lparr>Network = None, Receiver = Some ''#chan'', Sender = None\<rparr>"]
    ToSlice_nested [of NewUniversalScope]
    ToSlice_nested [of "NewScope ''net'' ''#chan'' ''alice''"]
    ToSlice_nested [of "NewSenderScope ''net'' ''alice''"]
  by (simp add: NewUniversalScope_def NewScope_def NewSenderScope_def IsAll_def)

text \<open>
  Claim C8 as it is written fails for a scope that is not universal and has no
  network: the scope with only the receiver \<open>#chan\<close> is not universal, and its
  encoding is empty, not a network followed by the receiver.
\<close>

theorem ToSlice_network_counterexample:
  "\<not> IsAll \<lparr>Network = None, Receiver = Some ''#chan'', Sender = None\<rparr>
   \<and> \<not> (\<exists>network. ToSlice \<lparr>Network = None, Receiver = Some ''#chan'', Sender = None\<rparr>
                      = [network, ''#chan''])
   \<and> ToSlice \<lparr>Network = None, Receiver = Some ''#chan'', Sender = None\<rparr> = []"
  by (simp add: IsAll_def ToSlice_def)

text \<open>
  Claim C7. \<open>ToCommandSlice\<close> returns an error exactly for the scopes that have both
  the receiver and the sender set; for every other scope it returns a slice, which
  is empty for the universal scope. \<open>SubscribeCommand\<close> returns that error with the
  connection untouched: nothing was written or read.
\<close>

theorem ToCommandSlice_error_iff:
  "(ToCommandSlice scope = Inl ScopeError) = (Receiver scope \<noteq> None \<and> Sender scope \<noteq> None)
   \<and> (\<exists>slice. ToCommandSlice scope = Inr slice) = (Receiver scope = None \<or> Sender scope = None)
   \<and> ToCommandSlice NewUniversalScope = Inr []
   \<and> (Receiver scope \<noteq> None \<and> Sender scope \<noteq> None \<longrightarrow>
        SubscribeCommand c n cmd scope h dazeus = Some (Err ScopeError, dazeus))"
  by (auto simp: ToCommandSlice_def NewUniversalScope_def SubscribeCommand_def
           split: option.splits)

theorem ToCommandSlice_error_iff_witness:
  "ToCommandSlice (NewScope ''net'' ''#chan'' ''alice'') = Inl ScopeError
   \<and> SubscribeCommand jsonCodec 1 ''hello'' (NewScope ''net'' ''#chan'' ''alice'') (\<lambda>evt. [])
        (connected [])
       = Some (Err ScopeError, connected [])
   \<and> ToCommandSlice (NewReceiverScope ''net'' ''#chan'')
       = Inr [JStr ''net'', JBool False, JStr ''#chan'']"
  using ToCommandSlice_error_iff [of "NewScope ''net'' ''#chan'' ''alice''" jsonCodec 1
      "''hello''" "\<lambda>evt. []" "connected []"]
    ToCommandSlice_error_iff [of "NewReceiverScope ''net'' ''#chan''"]
  by (simp add: NewScope_def NewReceiverScope_def ToCommandSlice_def)

section \<open>Frames\<close>

text \<open>
  Claim C6, as amended. \<open>checkMessage\<close> reports a frame only if the body length it
  has parsed is positive and, whenever the sum of the header bytes and the body
  length is below \<open>2 ^ 63\<close> (it has not wrapped around), the buffer holds that many
  bytes. For every frame that \<open>write\<close> builds around a body, the whole frame is
  reported with its header length and body length, and every shorter part of it,
  wherever the connection cuts it, is reported as no frame.
\<close>

theorem checkMessage_found_only_if:
  "(checkMessage buf = (True, offset, messageLen) \<longrightarrow>
      0 < messageLen
      \<and> (int offset + messageLen < 2 ^ 63 \<longrightarrow> int offset + messageLen \<le> int (length buf)))
   \<and> (startsBody body \<and> int (length (encodeFrame body)) < 2 ^ 63 \<longrightarrow>
        checkMessage (encodeFrame body) = (True, length (itoa (length body)), int (length body))
        \<and> (\<forall>k < length (encodeFrame body).
              checkMessage (take k (encodeFrame body)) = (False, 0, 0)))"
proof (intro conjI impI allI)
  assume found: "checkMessage buf = (True, offset, messageLen)"
  then show "0 < messageLen"
    by (auto simp: checkMessage_def split: prod.splits if_splits)
  assume small: "int offset + messageLen < 2 ^ 63"
  from found have pos: "0 < messageLen"
    and le: "wrap64 (int offset + messageLen) \<le> int (length buf)"
    by (auto simp: checkMessage_def split: prod.splits if_splits)
  have "wrap64 (int offset + messageLen) = int offset + messageLen"
    using small pos by (intro wrap64_id) auto
  with le show "int offset + messageLen \<le> int (length buf)" by simp
next
  assume "startsBody body \<and> int (length (encodeFrame body)) < 2 ^ 63"
  then show "checkMessage (encodeFrame body)
               = (True, length (itoa (length body)), int (length body))"
    using checkMessage_frame [of body "[]"] by simp
next
  fix k
  assume "startsBody body \<and> int (length (encodeFrame body)) < 2 ^ 63"
    and "k < length (encodeFrame body)"
  then show "checkMessage (take k (encodeFrame body)) = (False, 0, 0)"
    using checkMessage_prefix by blast
qed

theorem checkMessage_found_only_if_witness:
  "checkMessage ''2{}'' = (True, 1, 2) \<and> 0 < (2::int) \<and> (1::int) + 2 \<le> int (length ''2{}'')
   \<and> checkMessage (encodeFrame ''{}'') = (True, 1, 2)
   \<and> checkMessage (take 2 (encodeFrame ''{}'')) = (False, 0, 0)"
proof -
  have found: "checkMessage ''2{}'' = (True, 1, 2)"
    by (simp add: checkMessage_def isDigit_def isNewline_def digitVal_def wrap64_def)
  have body: "startsBody ''{}'' \<and> int (length (encodeFrame ''{}'')) < 2 ^ 63"
    by (simp add: startsBody_def isDigit_def isNewline_def encodeFrame_def itoa.simps)
  have k: "2 < length (encodeFrame ''{}'')"
    by (simp add: encodeFrame_def itoa.simps)
  have L: "length (itoa (length ''{}'')) = 1"
    by (simp add: itoa.simps)
  show ?thesis
    using checkMessage_found_only_if [of "''2{}''" 1 2 "''{}''"] found body k L
    by simp
qed

text \<open>
  Claim C6 as it is written fails when the sum wraps around. On the 19 bytes
  \<open>9223372036854775807\<close> the parsed length is \<open>2 ^ 63 - 1\<close>, the sum
  \<open>19 + (2 ^ 63 - 1)\<close> wraps around to a negative number, and \<open>checkMessage\<close>
  reports a frame although the buffer holds 19 bytes; \<open>read\<close> then panics on the
  allocation of the body.
\<close>

theorem checkMessage_overflow_counterexample:
  "checkMessage ''9223372036854775807'' = (True, 19, 9223372036854775807)
   \<and> \<not> (19 + 9223372036854775807 \<le> int (length ''9223372036854775807''))
   \<and> readFrom jsonCodec [] ''9223372036854775807'' = (Panic MakeSliceLenOutOfRange, [], [])"
  by (simp add: checkMessage_def isDigit_def digitVal_def wrap64_def readFrom.simps
        bufferRead_def)



section \<open>Events and responses\<close>

text \<open>
  Claim C10. \<open>makeEvent\<close> indexes the parameters without a check of their number.
  For a message with a string \<open>event\<close> and an array of strings \<open>params\<close>, it panics
  with an index out of range exactly when the array is empty, or the event is
  \<open>COMMAND\<close> and the array has fewer than 4 elements; with at least 1 element (at
  least 4 for \<open>COMMAND\<close>) every access is in bounds and it returns an event. It
  never returns an error for such a message.
\<close>

theorem makeEvent_bounds:
  assumes ev: "field message ''event'' = JStr t"
    and ps: "makeStringArray (field message ''params'') = Inr params"
  shows "(makeEvent message = Panic IndexOutOfRange)
           = (params = [] \<or> (t = ''COMMAND'' \<and> length params < 4))
         \<and> (\<exists>evt. makeEvent message = Ok evt)
           = (1 \<le> length params \<and> (t = ''COMMAND'' \<longrightarrow> 4 \<le> length params))
         \<and> (\<forall>e. makeEvent message \<noteq> Err e)"
proof -
  consider (empty) "params = []"
    | (short) "params \<noteq> []" "t = ''COMMAND''" "length params < 4"
    | (cmd) "t = ''COMMAND''" "4 \<le> length params"
    | (other) "params \<noteq> []" "t \<noteq> ''COMMAND''"
    by (cases params) fastforce+
  then show ?thesis
  proof cases
    case empty
    then show ?thesis
      using ev ps by (simp add: makeEvent_def andThen_def index_def)
  next
    case short
    from short(1) have "0 < length params" by simp
    with short(3) have "length params = 1 \<or> length params = 2 \<or> length params = 3"
      by arith
    then show ?thesis
      using ev ps short
      by (auto simp: makeEvent_def andThen_def index_def sliceFrom_def)
  next
    case cmd
    then have "params \<noteq> []" "Suc 0 \<le> length params - 3" by auto
    with cmd show ?thesis
      using ev ps by (simp add: makeEvent_def andThen_def index_def sliceFrom_def)
  next
    case other
    then have "0 < length params" "Suc 0 \<le> length params" by (simp_all add: Suc_le_eq)
    then show ?thesis
      using ev ps other
      by (auto simp: makeEvent_def andThen_def index_def sliceFrom_def)
  qed
qed

theorem makeEvent_bounds_witness:
  "(\<exists>evt. makeEvent privmsgEvent = Ok evt)
   \<and> makeEvent [(''event'', JStr ''COMMAND''),
                (''params'', JArr [JStr ''net'', JStr ''alice'', JStr ''#chan''])]
       = Panic IndexOutOfRange
   \<and> makeEvent [(''event'', JStr ''JOIN''), (''params'', JArr [])] = Panic IndexOutOfRange"
  using makeEvent_bounds [of privmsgEvent "''PRIVMSG''" "[''net'', ''alice'', ''#chan'', ''hi'']"]
    makeEvent_bounds [of "[(''event'', JStr ''COMMAND''),
                           (''params'', JArr [JStr ''net'', JStr ''alice'', JStr ''#chan''])]"
       "''COMMAND''" "[''net'', ''alice'', ''#chan'']"]
    makeEvent_bounds [of "[(''event'', JStr ''JOIN''), (''params'', JArr [])]" "''JOIN''" "[]"]
  by (simp add: privmsgEvent_def field_def makeStringArray_def)

text \<open>
  Claim C4, as amended. For a response that \<open>waitForResponse\<close> has handed over,
  \<open>waitForSuccessResponse\<close> fails with \<open>NoSuccessField\<close> when \<open>success\<close> is absent
  or null, with \<open>NoBooleanInSuccess\<close> when it is any other value that is not a
  boolean, and with \<open>ServerFailure\<close> when it is \<open>false\<close>; these are three different
  errors. It hands the message back exactly when \<open>success\<close> is the boolean \<open>true\<close>.
\<close>

theorem waitForSuccessResponse_cases:
  assumes "wait dazeus = Some (Ok response, d1)"
  shows "waitForSuccessResponse wait dazeus =
           Some ((case field response ''success'' of
                    JNull \<Rightarrow> Err NoSuccessField
                  | JBool success \<Rightarrow> if success then Ok response else Err ServerFailure
                  | _ \<Rightarrow> Err NoBooleanInSuccess), d1)
         \<and> (waitForSuccessResponse wait dazeus = Some (Ok response, d1))
             = (map_of response ''success'' = Some (JBool True))
         \<and> (map_of response ''success'' = None \<longrightarrow>
              waitForSuccessResponse wait dazeus = Some (Err NoSuccessField, d1))
         \<and> (map_of response ''success'' = Some JNull \<longrightarrow>
              waitForSuccessResponse wait dazeus = Some (Err NoSuccessField, d1))
         \<and> NoSuccessField \<noteq> NoBooleanInSuccess \<and> NoSuccessField \<noteq> ServerFailure
         \<and> NoBooleanInSuccess \<noteq> ServerFailure"
  using assms
  by (auto simp: waitForSuccessResponse_def field_def split: option.splits json.splits)

theorem waitForSuccessResponse_cases_witness:
  "waitForSuccessResponse (waitForResponse jsonCodec 1) (connected [frameOf jsonCodec nickReply])
     = Some (Ok nickReply,
             connected [frameOf jsonCodec nickReply] \<lparr>buffer := [], conn_in := []\<rparr>)
   \<and> waitForSuccessResponse (waitForResponse jsonCodec 1)
       (connected [frameOf jsonCodec failureReply])
     = Some (Err ServerFailure,
             connected [frameOf jsonCodec failureReply] \<lparr>buffer := [], conn_in := []\<rparr>)
   \<and> waitForSuccessResponse (waitForResponse jsonCodec 1)
       (connected [frameOf jsonCodec malformedReply])
     = Some (Err NoSuccessField,
             connected [frameOf jsonCodec malformedReply] \<lparr>buffer := [], conn_in := []\<rparr>)"
proof -
  have f: "framed jsonCodec nickReply" "framed jsonCodec failureReply"
    "framed jsonCodec malformedReply"
    by code_simp+
  have w: "waitForResponse jsonCodec 1 (connected [frameOf jsonCodec m])
             = Some (Ok m, connected [frameOf jsonCodec m] \<lparr>buffer := [], conn_in := []\<rparr>)"
    if "framed jsonCodec m" "field m ''event'' = JNull" for m
    using waitForResponse_response [OF that(1) _ _ that(2), of "connected [frameOf jsonCodec m]" "[]" 0]
    by (simp add: connected_def)
  have e: "field nickReply ''event'' = JNull" "field failureReply ''event'' = JNull"
    "field malformedReply ''event'' = JNull"
    by (simp_all add: field_def nickReply_def failureReply_def malformedReply_def)
  show ?thesis
    using waitForSuccessResponse_cases [where wait = "waitForResponse jsonCodec 1"
          and dazeus = "connected [frameOf jsonCodec nickReply]", OF w [OF f(1) e(1)]]
      waitForSuccessResponse_cases [where wait = "waitForResponse jsonCodec 1"
          and dazeus = "connected [frameOf jsonCodec failureReply]", OF w [OF f(2) e(2)]]
      waitForSuccessResponse_cases [where wait = "waitForResponse jsonCodec 1"
          and dazeus = "connected [frameOf jsonCodec malformedReply]", OF w [OF f(3) e(3)]]
    by (simp add: field_def nickReply_def failureReply_def malformedReply_def)
qed

text \<open>
  Claim C4 as it is written fails for a \<open>success\<close> field that holds null: the field
  is there and its value is not a boolean, yet the error is the one of a response
  that has no \<open>success\<close> field.
\<close>

theorem success_null_counterexample:
  "map_of malformedReply ''success'' = None
   \<and> map_of nullReply ''success'' = Some JNull
   \<and> map_option fst (waitForSuccessResponse (waitForResponse jsonCodec 1)
                        (connected [frameOf jsonCodec malformedReply]))
       = Some (Err NoSuccessField)
   \<and> map_option fst (waitForSuccessResponse (waitForResponse jsonCodec 1)
                        (connected [frameOf jsonCodec nullReply]))
       = Some (Err NoSuccessField)"
  by code_simp

section \<open>Correlation of responses\<close>

text \<open>
  Claim C1, as amended. After the handlers of a push event have run, \<open>waitForResponse\<close>
  removes and returns the head of the queue of pending responses if the queue holds
  more entries than \<open>callDepth\<close>, and reads on otherwise. A response is returned
  to the current call if the length of the queue equals \<open>callDepth\<close>, and is put
  at the end of the queue otherwise. In the nested scenario (an outer call is
  waiting, an event arrives, its handler makes an inner call, then two responses
  arrive) the first response to arrive is queued for the outer call and the second
  one is returned to the inner call: each call gets its own response when the core
  answers the requests in the order in which they were sent, the outer one first.
\<close>

theorem waitForResponse_correlation:
  "(read c d = (Ok msg, d1) \<and> field msg ''event'' = JNull \<longrightarrow>
      waitForResponse c (Suc n) d =
        (if int (length (responseQueue d1)) = sint (callDepth d1) then Some (Ok msg, d1)
         else waitForResponse c n (d1\<lparr>responseQueue := responseQueue d1 @ [msg]\<rparr>)))
   \<and> (read c d = (Ok msg, d1) \<and> field msg ''event'' \<noteq> JNull
        \<and> handleEvent (request c n) msg (d1\<lparr>callDepth := callDepth d1 + 1\<rparr>) = Some (Ok u, d2)
      \<longrightarrow>
      waitForResponse c (Suc n) d =
        (if int (length (responseQueue d2)) > sint (callDepth d2 - 1) then
           (case responseQueue d2 of
              [] \<Rightarrow> Some (Panic IndexOutOfRange, d2\<lparr>callDepth := callDepth d2 - 1\<rparr>)
            | m # queue \<Rightarrow>
                Some (Ok m, d2\<lparr>callDepth := callDepth d2 - 1, responseQueue := queue\<rparr>))
         else waitForResponse c n (d2\<lparr>callDepth := callDepth d2 - 1\<rparr>)))
   \<and> (framed c E \<and> framed c R1 \<and> framed c R2 \<and> framed c req
        \<and> field E ''event'' \<noteq> JNull \<and> makeEvent E = Ok evt
        \<and> field R1 ''event'' = JNull \<and> field R2 ''event'' = JNull
        \<and> field R2 ''success'' = JBool True
        \<and> matching l evt \<and> handler l evt = [req]
      \<longrightarrow>
      waitForResponse c (Suc (Suc (Suc k)))
        \<lparr>conn_in = frameOf c E # frameOf c R1 # frameOf c R2 # rest, conn_out = out,
         conn_up = True, buffer = [], listeners = [(h, l)], lastHandle = lh,
         callDepth = 0, responseQueue = [], trace = tr\<rparr>
      = Some (Ok R1,
          \<lparr>conn_in = rest, conn_out = out @ [frameOf c req],
           conn_up = True, buffer = [], listeners = [(h, l)], lastHandle = lh,
           callDepth = 0, responseQueue = [],
           trace = tr @ [Dispatched evt 1, Returned 1 (Ok R2)]\<rparr>))"
proof (intro conjI impI)
  assume "read c d = (Ok msg, d1) \<and> field msg ''event'' = JNull"
  then show "waitForResponse c (Suc n) d =
        (if int (length (responseQueue d1)) = sint (callDepth d1) then Some (Ok msg, d1)
         else waitForResponse c n (d1\<lparr>responseQueue := responseQueue d1 @ [msg]\<rparr>))"
    by (simp add: waitForResponse.simps)
next
  assume a: "read c d = (Ok msg, d1) \<and> field msg ''event'' \<noteq> JNull
        \<and> handleEvent (request c n) msg (d1\<lparr>callDepth := callDepth d1 + 1\<rparr>) = Some (Ok u, d2)"
  have req: "writeForSuccessResponse c (\<lambda>d. waitForResponse c n d) = request c n"
    by (simp add: request_def)
  from a show "waitForResponse c (Suc n) d =
        (if int (length (responseQueue d2)) > sint (callDepth d2 - 1) then
           (case responseQueue d2 of
              [] \<Rightarrow> Some (Panic IndexOutOfRange, d2\<lparr>callDepth := callDepth d2 - 1\<rparr>)
            | m # queue \<Rightarrow>
                Some (Ok m, d2\<lparr>callDepth := callDepth d2 - 1, responseQueue := queue\<rparr>))
         else waitForResponse c n (d2\<lparr>callDepth := callDepth d2 - 1\<rparr>))"
    by (simp add: waitForResponse.simps req Let_def)
next
  assume "framed c E \<and> framed c R1 \<and> framed c R2 \<and> framed c req
        \<and> field E ''event'' \<noteq> JNull \<and> makeEvent E = Ok evt
        \<and> field R1 ''event'' = JNull \<and> field R2 ''event'' = JNull
        \<and> field R2 ''success'' = JBool True
        \<and> matching l evt \<and> handler l evt = [req]"
  then show "waitForResponse c (Suc (Suc (Suc k)))
        \<lparr>conn_in = frameOf c E # frameOf c R1 # frameOf c R2 # rest, conn_out = out,
         conn_up = True, buffer = [], listeners = [(h, l)], lastHandle = lh,
         callDepth = 0, responseQueue = [], trace = tr\<rparr>
      = Some (Ok R1,
          \<lparr>conn_in = rest, conn_out = out @ [frameOf c req],
           conn_up = True, buffer = [], listeners = [(h, l)], lastHandle = lh,
           callDepth = 0, responseQueue = [],
           trace = tr @ [Dispatched evt 1, Returned 1 (Ok R2)]\<rparr>)"
    using nested_scenario by blast
qed

theorem waitForResponse_correlation_witness:
  "waitForResponse jsonCodec (Suc 0) (connected [frameOf jsonCodec nickReply])
     = Some (Ok nickReply, connected [])
   \<and> waitForResponse jsonCodec (Suc (Suc 0))
       (connected [frameOf jsonCodec privmsgEvent, frameOf jsonCodec nickReply])
     = waitForResponse jsonCodec (Suc 0) (connected [frameOf jsonCodec nickReply])
   \<and> waitForResponse jsonCodec (Suc (Suc (Suc 0)))
       (listening [frameOf jsonCodec privmsgEvent, frameOf jsonCodec networksReply,
                   frameOf jsonCodec nickReply])
     = Some (Ok networksReply,
             listening [] \<lparr>conn_out := [frameOf jsonCodec nickRequest],
                           trace := [Dispatched privmsgEvt 1, Returned 1 (Ok nickReply)]\<rparr>)"
proof -
  have r1: "read jsonCodec (connected [frameOf jsonCodec nickReply])
              = (Ok nickReply, connected [])"
    unfolding connected_def by (simp add: read_next framed_examples)
  have a: "waitForResponse jsonCodec (Suc 0) (connected [frameOf jsonCodec nickReply])
     = Some (Ok nickReply, connected [])"
    using waitForResponse_correlation [of jsonCodec "connected [frameOf jsonCodec nickReply]"
        nickReply "connected []" 0] r1 field_examples
    by (simp add: connected_def)
  have r2: "read jsonCodec (connected [frameOf jsonCodec privmsgEvent, frameOf jsonCodec nickReply])
              = (Ok privmsgEvent, connected [frameOf jsonCodec nickReply])"
    unfolding connected_def by (simp add: read_next framed_examples)
  have h2: "handleEvent (request jsonCodec (Suc 0)) privmsgEvent
              (connected [frameOf jsonCodec nickReply]
                 \<lparr>callDepth := callDepth (connected [frameOf jsonCodec nickReply]) + 1\<rparr>)
            = Some (Ok (), connected [frameOf jsonCodec nickReply] \<lparr>callDepth := 1\<rparr>)"
    by (simp add: handleEvent_def makeEvent_privmsgEvent connected_def)
  have b: "waitForResponse jsonCodec (Suc (Suc 0))
       (connected [frameOf jsonCodec privmsgEvent, frameOf jsonCodec nickReply])
     = waitForResponse jsonCodec (Suc 0) (connected [frameOf jsonCodec nickReply])"
    using waitForResponse_correlation [of jsonCodec
        "connected [frameOf jsonCodec privmsgEvent, frameOf jsonCodec nickReply]"
        privmsgEvent "connected [frameOf jsonCodec nickReply]" "Suc 0" "()"
        "connected [frameOf jsonCodec nickReply] \<lparr>callDepth := 1\<rparr>"] r2 h2 field_examples
    by (simp add: connected_def)
  have c: "waitForResponse jsonCodec (Suc (Suc (Suc 0)))
       (listening [frameOf jsonCodec privmsgEvent, frameOf jsonCodec networksReply,
                   frameOf jsonCodec nickReply])
     = Some (Ok networksReply,
             listening [] \<lparr>conn_out := [frameOf jsonCodec nickRequest],
                           trace := [Dispatched privmsgEvt 1, Returned 1 (Ok nickReply)]\<rparr>)"
    using waitForResponse_correlation [where c = jsonCodec and E = privmsgEvent
        and ?R1.0 = networksReply and ?R2.0 = nickReply and req = nickRequest
        and evt = privmsgEvt and l = replyListener and k = 0 and rest = "[]" and out = "[]"
        and h = 1 and lh = 2 and tr = "[]"]
      framed_examples makeEvent_privmsgEvent field_examples matching_replyListener
    by (simp add: listening_def)
  from a b c show ?thesis by blast
qed

text \<open>
  Claim C1 as it is written fails in its nested scenario: there the response to
  the inner call arrives before the one to the outer call. With the frames in that
  order, the outer call (for the networks) returns the response that arrived first,
  the nick, and the call of the handler (for the nick) returns the one that arrived
  second, the networks.
\<close>

theorem nested_order_counterexample:
  "map_option (\<lambda>(r, d). (r, trace d))
     (request jsonCodec 3 networksRequest
        (listening [frameOf jsonCodec privmsgEvent, frameOf jsonCodec nickReply,
                    frameOf jsonCodec networksReply]))
   = Some (Ok nickReply, [Dispatched privmsgEvt 1, Returned 1 (Ok networksReply)])"
  by code_simp

text \<open>
  Claim C3, as amended. \<open>waitForResponse\<close> calls the handlers of a push event that
  it reads with \<open>callDepth\<close> incremented by one; the handlers and the calls they
  make leave the counter as they find it, and \<open>waitForResponse\<close> returns with the
  counter as it was on entry, unless it panics. \<open>waitForEvent\<close>, which the
  \<open>Listen\<close> loop calls, does not change the counter: it calls the handlers at the
  call depth at which it was entered.
\<close>

theorem callDepth_during_events:
  "(waitForResponse c n d = Some (r, d') \<and> \<not> isPanic r \<longrightarrow> callDepth d' = callDepth d)
   \<and> (read c d = (Ok msg, d1) \<and> field msg ''event'' \<noteq> JNull \<and> makeEvent msg = Ok evt
        \<and> list_ex (\<lambda>hl. matching (snd hl) evt) (listeners d)
        \<and> waitForResponse c (Suc n) d = Some (r, d')
      \<longrightarrow> (\<exists>rest. trace d' = trace d @ Dispatched evt (callDepth d + 1) # rest))
   \<and> (handleEvent (request c n) msg d = Some (u, d') \<and> \<not> isPanic u
      \<longrightarrow> callDepth d' = callDepth d)
   \<and> (waitForEvent c n d = Some (u, d') \<and> \<not> isPanic u \<longrightarrow> callDepth d' = callDepth d)
   \<and> (read c d = (Ok msg, d1) \<and> field msg ''event'' \<noteq> JNull \<and> makeEvent msg = Ok evt
        \<and> list_ex (\<lambda>hl. matching (snd hl) evt) (listeners d)
        \<and> waitForEvent c n d = Some (u, d')
      \<longrightarrow> (\<exists>rest. trace d' = trace d @ Dispatched evt (callDepth d) # rest))"
proof (intro conjI impI)
  assume "waitForResponse c n d = Some (r, d') \<and> \<not> isPanic r"
  then show "callDepth d' = callDepth d"
    using preservesD [OF preserves_waitForResponse] by (fastforce simp: keeps_def)
next
  assume "handleEvent (request c n) msg d = Some (u, d') \<and> \<not> isPanic u"
  then show "callDepth d' = callDepth d"
    using preservesD [OF preserves_handleEvent [of "request c n" msg]] preserves_request
    by (fastforce simp: keeps_def)
next
  assume "waitForEvent c n d = Some (u, d') \<and> \<not> isPanic u"
  then show "callDepth d' = callDepth d"
    using preservesD [OF preserves_waitForEvent] by (fastforce simp: keeps_def)
next
  assume a: "read c d = (Ok msg, d1) \<and> field msg ''event'' \<noteq> JNull \<and> makeEvent msg = Ok evt
        \<and> list_ex (\<lambda>hl. matching (snd hl) evt) (listeners d)
        \<and> waitForResponse c (Suc n) d = Some (r, d')"
  let ?d1 = "d1\<lparr>callDepth := callDepth d1 + 1\<rparr>"
  from a have same: "listeners d1 = listeners d" "callDepth d1 = callDepth d" "trace d1 = trace d"
    by (auto simp: read_def split: prod.splits)
  from a obtain r2 d2 where h: "handleEvent (request c n) msg ?d1 = Some (r2, d2)"
    and p: "prefix (trace d2) (trace d')"
    by (blast elim: waitForResponse_event_result)
  from h a have "dispatch (request c n) (listeners ?d1) evt ?d1 = Some (r2, d2)"
    by (simp add: handleEvent_def)
  then have "\<exists>rest. trace d2 = trace ?d1 @ Dispatched evt (callDepth ?d1) # rest"
    using a same preserves_request by (intro dispatch_first) auto
  with p same show "\<exists>rest. trace d' = trace d @ Dispatched evt (callDepth d + 1) # rest"
    by (auto simp: prefix_def)
next
  assume a: "read c d = (Ok msg, d1) \<and> field msg ''event'' \<noteq> JNull \<and> makeEvent msg = Ok evt
        \<and> list_ex (\<lambda>hl. matching (snd hl) evt) (listeners d)
        \<and> waitForEvent c n d = Some (u, d')"
  from a have same: "listeners d1 = listeners d" "callDepth d1 = callDepth d" "trace d1 = trace d"
    by (auto simp: read_def split: prod.splits)
  from a have "read c d = (Ok msg, d1)" "field msg ''event'' \<noteq> JNull" "makeEvent msg = Ok evt"
    "waitForEvent c n d = Some (u, d')"
    by simp_all
  then have "dispatch (request c n) (listeners d1) evt d1 = Some (u, d')"
    by (simp add: waitForEvent_def handleEvent_def)
  then have "\<exists>rest. trace d' = trace d1 @ Dispatched evt (callDepth d1) # rest"
    using a same preserves_request by (intro dispatch_first) auto
  with same show "\<exists>rest. trace d' = trace d @ Dispatched evt (callDepth d) # rest"
    by simp
qed

theorem callDepth_during_events_witness:
  "callDepth (listening [] \<lparr>conn_out := [frameOf jsonCodec nickRequest],
                             trace := [Dispatched privmsgEvt 1, Returned 1 (Ok nickReply)]\<rparr>)
     = callDepth (listening [frameOf jsonCodec privmsgEvent, frameOf jsonCodec networksReply,
                             frameOf jsonCodec nickReply])
   \<and> (\<exists>rest. trace (listening [] \<lparr>conn_out := [frameOf jsonCodec nickRequest],
                             trace := [Dispatched privmsgEvt 1, Returned 1 (Ok nickReply)]\<rparr>)
         = trace (listening [frameOf jsonCodec privmsgEvent, frameOf jsonCodec networksReply,
                             frameOf jsonCodec nickReply])
           @ Dispatched privmsgEvt (0 + 1) # rest)
   \<and> callDepth (listening [] \<lparr>conn_out := [frameOf jsonCodec nickRequest],
                             trace := [Dispatched privmsgEvt 0, Returned 0 (Ok nickReply)]\<rparr>)
     = callDepth (listening [frameOf jsonCodec nickReply])
   \<and> callDepth (listening [] \<lparr>conn_out := [frameOf jsonCodec nickRequest],
                             trace := [Dispatched privmsgEvt 0, Returned 0 (Ok nickReply)]\<rparr>)
     = callDepth (listening [frameOf jsonCodec privmsgEvent, frameOf jsonCodec nickReply])
   \<and> (\<exists>rest. trace (listening [] \<lparr>conn_out := [frameOf jsonCodec nickRequest],
                             trace := [Dispatched privmsgEvt 0, Returned 0 (Ok nickReply)]\<rparr>)
         = trace (listening [frameOf jsonCodec privmsgEvent, frameOf jsonCodec nickReply])
           @ Dispatched privmsgEvt 0 # rest)"
proof -
  let ?start = "listening [frameOf jsonCodec privmsgEvent, frameOf jsonCodec networksReply,
                           frameOf jsonCodec nickReply]"
  let ?final = "listening [] \<lparr>conn_out := [frameOf jsonCodec nickRequest],
                             trace := [Dispatched privmsgEvt 1, Returned 1 (Ok nickReply)]\<rparr>"
  let ?lstart = "listening [frameOf jsonCodec privmsgEvent, frameOf jsonCodec nickReply]"
  let ?lfinal = "listening [] \<lparr>conn_out := [frameOf jsonCodec nickRequest],
                             trace := [Dispatched privmsgEvt 0, Returned 0 (Ok nickReply)]\<rparr>"
  have run: "waitForResponse jsonCodec (Suc (Suc (Suc 0))) ?start = Some (Ok networksReply, ?final)"
    using nested_scenario [OF framed_examples(1,3,2,4) field_examples(1) makeEvent_privmsgEvent
        field_examples(3,2,4) matching_replyListener, of 0 "[]" "[]" 1 2 "[]"]
    by (simp add: listening_def)
  have rd: "read jsonCodec ?start
              = (Ok privmsgEvent,
                 listening [frameOf jsonCodec networksReply, frameOf jsonCodec nickReply])"
    unfolding listening_def by (simp add: read_next framed_examples)
  have ex: "list_ex (\<lambda>hl. matching (snd hl) privmsgEvt) (listeners ?start)"
    "list_ex (\<lambda>hl. matching (snd hl) privmsgEvt) (listeners ?lstart)"
    by (simp_all add: listening_def matching_replyListener)
  have np: "\<not> isPanic (Ok networksReply)" "\<not> isPanic (Ok ())" by simp_all
  have lrun: "waitForEvent jsonCodec (Suc 0) ?lstart = Some (Ok (), ?lfinal)"
    using listen_scenario [OF framed_examples(1,2,4) field_examples(1) makeEvent_privmsgEvent
        field_examples(2,4) matching_replyListener, of 0 "[]" "[]" 1 2 "[]"]
    by (simp add: listening_def)
  have lrd: "read jsonCodec ?lstart
              = (Ok privmsgEvent, listening [frameOf jsonCodec nickReply])"
    unfolding listening_def by (simp add: read_next framed_examples)
  have hrun: "handleEvent (request jsonCodec (Suc 0)) privmsgEvent
                (listening [frameOf jsonCodec nickReply]) = Some (Ok (), ?lfinal)"
    using handle_scenario [OF framed_examples(2,4) makeEvent_privmsgEvent
        field_examples(2,4) matching_replyListener, of 0 "[]" "[]" 1 2 "[]"]
    by (simp add: listening_def)
  have d0: "callDepth ?start = 0" "callDepth ?lstart = 0" by (simp_all add: listening_def)
  have 1: "callDepth ?final = callDepth ?start"
    using callDepth_during_events [where c = jsonCodec and n = "Suc (Suc (Suc 0))"
        and d = ?start and r = "Ok networksReply" and d' = ?final] run np
    by blast
  have 2: "\<exists>rest. trace ?final = trace ?start @ Dispatched privmsgEvt (0 + 1) # rest"
    using callDepth_during_events [where c = jsonCodec and n = "Suc (Suc 0)"
        and d = ?start and r = "Ok networksReply" and d' = ?final and msg = privmsgEvent
        and evt = privmsgEvt
        and ?d1.0 = "listening [frameOf jsonCodec networksReply, frameOf jsonCodec nickReply]"]
      run rd ex field_examples(1) makeEvent_privmsgEvent d0
    by simp
  have 3: "callDepth ?lfinal = callDepth ?lstart"
    using callDepth_during_events [where c = jsonCodec and n = "Suc 0"
        and d = ?lstart and u = "Ok ()" and d' = ?lfinal] lrun np
    by blast
  have 4: "\<exists>rest. trace ?lfinal = trace ?lstart @ Dispatched privmsgEvt 0 # rest"
    using callDepth_during_events [where c = jsonCodec and n = "Suc 0"
        and d = ?lstart and u = "Ok ()" and d' = ?lfinal and msg = privmsgEvent
        and evt = privmsgEvt and ?d1.0 = "listening [frameOf jsonCodec nickReply]"]
      lrun lrd ex field_examples(1) makeEvent_privmsgEvent d0
    by simp
  have 5: "callDepth ?lfinal = callDepth (listening [frameOf jsonCodec nickReply])"
    using callDepth_during_events [where c = jsonCodec and n = "Suc 0"
        and d = "listening [frameOf jsonCodec nickReply]" and u = "Ok ()" and d' = ?lfinal
        and msg = privmsgEvent] hrun np
    by blast
  from 1 2 3 4 5 show ?thesis by blast
qed

text \<open>
  Claim C3 as it is written fails for the \<open>Listen\<close> loop: \<open>waitForEvent\<close> calls
  the handler of an event with the call depth 0 at which it was entered, not 1, and
  the call that the handler makes gets its response at depth 0.
\<close>

theorem listen_depth_counterexample:
  "callDepth (listening [frameOf jsonCodec privmsgEvent, frameOf jsonCodec nickReply]) = 0
   \<and> map_option (\<lambda>(r, d). (r, trace d, callDepth d))
       (waitForEvent jsonCodec 1
          (listening [frameOf jsonCodec privmsgEvent, frameOf jsonCodec nickReply]))
     = Some (Ok (), [Dispatched privmsgEvt 0, Returned 0 (Ok nickReply)], 0)"
  by code_simp

section \<open>Listeners\<close>

text \<open>
  Claim C2, as amended. Let a connection wait at its call depth with three success
  responses coming in, and let no listener be registered for the event \<open>ev\<close>, which
  is not \<open>COMMAND\<close>. Each of two calls of \<open>Subscribe\<close> for \<open>ev\<close> sends one subscribe
  request to the core, two in all, and registers its listener under the next handle.
  \<open>Unsubscribe\<close> of the first of them sends nothing and reads nothing;
  \<open>Unsubscribe\<close> of the second, the last listener for \<open>ev\<close>, sends exactly one
  unsubscribe request.
\<close>

theorem subscribe_requests:
  assumes fr: "framed c (subscribeRequest ev)" "framed c (unsubscribeRequest ev)"
      "framed c R1" "framed c R2" "framed c R3"
    and ok: "field R1 ''event'' = JNull" "field R1 ''success'' = JBool True"
      "field R2 ''event'' = JNull" "field R2 ''success'' = JBool True"
      "field R3 ''event'' = JNull" "field R3 ''success'' = JBool True"
    and ev: "ev \<noteq> ''COMMAND''"
    and fresh: "lh \<notin> fst ` set ls" "lh + 1 \<notin> fst ` set ls"
      "\<not> list_ex (\<lambda>hl. event (snd hl) = ev) ls"
    and depth: "int (length q) = sint cd"
  shows "Subscribe c (Suc n) ev h1
           \<lparr>conn_in = frameOf c R1 # frameOf c R2 # frameOf c R3 # rest, conn_out = out,
            conn_up = True, buffer = [], listeners = ls, lastHandle = lh, callDepth = cd,
            responseQueue = q, trace = tr\<rparr>
         = Some (Ok lh,
             \<lparr>conn_in = frameOf c R2 # frameOf c R3 # rest,
              conn_out = out @ [frameOf c (subscribeRequest ev)],
              conn_up = True, buffer = [],
              listeners = ls @ [(lh, \<lparr>event = ev, command = [], handler = h1\<rparr>)],
              lastHandle = lh + 1, callDepth = cd, responseQueue = q, trace = tr\<rparr>)
       \<and> Subscribe c (Suc n) ev h2
           \<lparr>conn_in = frameOf c R2 # frameOf c R3 # rest,
            conn_out = out @ [frameOf c (subscribeRequest ev)],
            conn_up = True, buffer = [],
            listeners = ls @ [(lh, \<lparr>event = ev, command = [], handler = h1\<rparr>)],
            lastHandle = lh + 1, callDepth = cd, responseQueue = q, trace = tr\<rparr>
         = Some (Ok (lh + 1),
             \<lparr>conn_in = frameOf c R3 # rest,
              conn_out = out @ [frameOf c (subscribeRequest ev), frameOf c (subscribeRequest ev)],
              conn_up = True, buffer = [],
              listeners = ls @ [(lh, \<lparr>event = ev, command = [], handler = h1\<rparr>),
                                (lh + 1, \<lparr>event = ev, command = [], handler = h2\<rparr>)],
              lastHandle = lh + 1 + 1, callDepth = cd, responseQueue = q, trace = tr\<rparr>)
       \<and> Unsubscribe c (Suc n) lh
           \<lparr>conn_in = frameOf c R3 # rest,
            conn_out = out @ [frameOf c (subscribeRequest ev), frameOf c (subscribeRequest ev)],
            conn_up = True, buffer = [],
            listeners = ls @ [(lh, \<lparr>event = ev, command = [], handler = h1\<rparr>),
                              (lh + 1, \<lparr>event = ev, command = [], handler = h2\<rparr>)],
            lastHandle = lh + 1 + 1, callDepth = cd, responseQueue = q, trace = tr\<rparr>
         = Some (Ok (),
             \<lparr>conn_in = frameOf c R3 # rest,
              conn_out = out @ [frameOf c (subscribeRequest ev), frameOf c (subscribeRequest ev)],
              conn_up = True, buffer = [],
              listeners = ls @ [(lh + 1, \<lparr>event = ev, command = [], handler = h2\<rparr>)],
              lastHandle = lh + 1 + 1, callDepth = cd, responseQueue = q, trace = tr\<rparr>)
       \<and> Unsubscribe c (Suc n) (lh + 1)
           \<lparr>conn_in = frameOf c R3 # rest,
            conn_out = out @ [frameOf c (subscribeRequest ev), frameOf c (subscribeRequest ev)],
            conn_up = True, buffer = [],
            listeners = ls @ [(lh + 1, \<lparr>event = ev, command = [], handler = h2\<rparr>)],
            lastHandle = lh + 1 + 1, callDepth = cd, responseQueue = q, trace = tr\<rparr>
         = Some (Ok (),
             \<lparr>conn_in = rest,
              conn_out = out @ [frameOf c (subscribeRequest ev), frameOf c (subscribeRequest ev),
                                frameOf c (unsubscribeRequest ev)],
              conn_up = True, buffer = [], listeners = ls,
              lastHandle = lh + 1 + 1, callDepth = cd, responseQueue = q, trace = tr\<rparr>)"
proof (intro conjI)
  let ?l1 = "\<lparr>event = ev, command = [], handler = h1\<rparr>"
  let ?l2 = "\<lparr>event = ev, command = [], handler = h2\<rparr>"
  have ne: "lh \<noteq> lh + 1" by simp
  show "Subscribe c (Suc n) ev h1
           \<lparr>conn_in = frameOf c R1 # frameOf c R2 # frameOf c R3 # rest, conn_out = out,
            conn_up = True, buffer = [], listeners = ls, lastHandle = lh, callDepth = cd,
            responseQueue = q, trace = tr\<rparr>
         = Some (Ok lh,
             \<lparr>conn_in = frameOf c R2 # frameOf c R3 # rest,
              conn_out = out @ [frameOf c (subscribeRequest ev)],
              conn_up = True, buffer = [],
              listeners = ls @ [(lh, ?l1)],
              lastHandle = lh + 1, callDepth = cd, responseQueue = q, trace = tr\<rparr>)"
    by (simp add: Subscribe_def request_next [OF fr(1,3) ok(1,2) depth] register_def Let_def
          update_fresh [OF fresh(1)])
  have fresh2: "lh + 1 \<notin> fst ` set (ls @ [(lh, ?l1)])"
    using fresh(2) ne by auto
  show "Subscribe c (Suc n) ev h2
           \<lparr>conn_in = frameOf c R2 # frameOf c R3 # rest,
            conn_out = out @ [frameOf c (subscribeRequest ev)],
            conn_up = True, buffer = [],
            listeners = ls @ [(lh, ?l1)],
            lastHandle = lh + 1, callDepth = cd, responseQueue = q, trace = tr\<rparr>
         = Some (Ok (lh + 1),
             \<lparr>conn_in = frameOf c R3 # rest,
              conn_out = out @ [frameOf c (subscribeRequest ev), frameOf c (subscribeRequest ev)],
              conn_up = True, buffer = [],
              listeners = ls @ [(lh, ?l1), (lh + 1, ?l2)],
              lastHandle = lh + 1 + 1, callDepth = cd, responseQueue = q, trace = tr\<rparr>)"
    by (simp add: Subscribe_def request_next [OF fr(1,4) ok(3,4) depth] register_def Let_def
          update_fresh [OF fresh2])
  have look1: "map_of (ls @ [(lh, ?l1), (lh + 1, ?l2)]) lh = Some ?l1"
    by (simp add: map_of_fresh [OF fresh(1)] del: map_of_append)
  have del1: "AList.delete lh (ls @ [(lh, ?l1), (lh + 1, ?l2)]) = ls @ [(lh + 1, ?l2)]"
    using fresh(1) ne by (simp add: delete_append)
  show "Unsubscribe c (Suc n) lh
           \<lparr>conn_in = frameOf c R3 # rest,
            conn_out = out @ [frameOf c (subscribeRequest ev), frameOf c (subscribeRequest ev)],
            conn_up = True, buffer = [],
            listeners = ls @ [(lh, ?l1), (lh + 1, ?l2)],
            lastHandle = lh + 1 + 1, callDepth = cd, responseQueue = q, trace = tr\<rparr>
         = Some (Ok (),
             \<lparr>conn_in = frameOf c R3 # rest,
              conn_out = out @ [frameOf c (subscribeRequest ev), frameOf c (subscribeRequest ev)],
              conn_up = True, buffer = [],
              listeners = ls @ [(lh + 1, ?l2)],
              lastHandle = lh + 1 + 1, callDepth = cd, responseQueue = q, trace = tr\<rparr>)"
    using ev by (simp add: Unsubscribe_def Let_def look1 del1 del: map_of_append)
  have look2: "map_of (ls @ [(lh + 1, ?l2)]) (lh + 1) = Some ?l2"
    by (simp add: map_of_fresh [OF fresh(2)] del: map_of_append)
  have del2: "AList.delete (lh + 1) (ls @ [(lh + 1, ?l2)]) = ls"
    using fresh(2) by (simp add: delete_append)
  show "Unsubscribe c (Suc n) (lh + 1)
           \<lparr>conn_in = frameOf c R3 # rest,
            conn_out = out @ [frameOf c (subscribeRequest ev), frameOf c (subscribeRequest ev)],
            conn_up = True, buffer = [],
            listeners = ls @ [(lh + 1, ?l2)],
            lastHandle = lh + 1 + 1, callDepth = cd, responseQueue = q, trace = tr\<rparr>
         = Some (Ok (),
             \<lparr>conn_in = rest,
              conn_out = out @ [frameOf c (subscribeRequest ev), frameOf c (subscribeRequest ev),
                                frameOf c (unsubscribeRequest ev)],
              conn_up = True, buffer = [], listeners = ls,
              lastHandle = lh + 1 + 1, callDepth = cd, responseQueue = q, trace = tr\<rparr>)"
    using ev fresh(3)
    by (simp add: Unsubscribe_def Let_def look2 del2
          request_next [OF fr(2,5) ok(5,6) depth] del: map_of_append)
qed

theorem subscribe_requests_witness:
  "Subscribe jsonCodec (Suc 0) ''PRIVMSG'' quiet
     (idle [frameOf jsonCodec okReply, frameOf jsonCodec okReply, frameOf jsonCodec okReply]
        [] [] 1)
   = Some (Ok 1,
       idle [frameOf jsonCodec okReply, frameOf jsonCodec okReply]
         [frameOf jsonCodec (subscribeRequest ''PRIVMSG'')]
         [(1, \<lparr>event = ''PRIVMSG'', command = [], handler = quiet\<rparr>)] 2)
   \<and> Subscribe jsonCodec (Suc 0) ''PRIVMSG'' quiet
       (idle [frameOf jsonCodec okReply, frameOf jsonCodec okReply]
         [frameOf jsonCodec (subscribeRequest ''PRIVMSG'')]
         [(1, \<lparr>event = ''PRIVMSG'', command = [], handler = quiet\<rparr>)] 2)
     = Some (Ok 2,
         idle [frameOf jsonCodec okReply]
           [frameOf jsonCodec (subscribeRequest ''PRIVMSG''),
            frameOf jsonCodec (subscribeRequest ''PRIVMSG'')]
           [(1, \<lparr>event = ''PRIVMSG'', command = [], handler = quiet\<rparr>),
            (2, \<lparr>event = ''PRIVMSG'', command = [], handler = quiet\<rparr>)] 3)
   \<and> Unsubscribe jsonCodec (Suc 0) 1
       (idle [frameOf jsonCodec okReply]
           [frameOf jsonCodec (subscribeRequest ''PRIVMSG''),
            frameOf jsonCodec (subscribeRequest ''PRIVMSG'')]
           [(1, \<lparr>event = ''PRIVMSG'', command = [], handler = quiet\<rparr>),
            (2, \<lparr>event = ''PRIVMSG'', command = [], handler = quiet\<rparr>)] 3)
     = Some (Ok (),
         idle [frameOf jsonCodec okReply]
           [frameOf jsonCodec (subscribeRequest ''PRIVMSG''),
            frameOf jsonCodec (subscribeRequest ''PRIVMSG'')]
           [(2, \<lparr>event = ''PRIVMSG'', command = [], handler = quiet\<rparr>)] 3)
   \<and> Unsubscribe jsonCodec (Suc 0) 2
       (idle [frameOf jsonCodec okReply]
           [frameOf jsonCodec (subscribeRequest ''PRIVMSG''),
            frameOf jsonCodec (subscribeRequest ''PRIVMSG'')]
           [(2, \<lparr>event = ''PRIVMSG'', command = [], handler = quiet\<rparr>)] 3)
     = Some (Ok (),
         idle []
           [frameOf jsonCodec (subscribeRequest ''PRIVMSG''),
            frameOf jsonCodec (subscribeRequest ''PRIVMSG''),
            frameOf jsonCodec (unsubscribeRequest ''PRIVMSG'')]
           [] 3)"
proof -
  have ev: "''PRIVMSG'' \<noteq> ''COMMAND''" by simp
  have fresh: "(1 :: 64 word) \<notin> fst ` set ([] :: (64 word \<times> listener) list)"
    "(1 :: 64 word) + 1 \<notin> fst ` set ([] :: (64 word \<times> listener) list)"
    "\<not> list_ex (\<lambda>hl. event (snd hl) = ''PRIVMSG'') ([] :: (64 word \<times> listener) list)"
    by simp_all
  have depth: "int (length ([] :: Message list)) = sint (0 :: 64 word)" by simp
  show ?thesis
    using subscribe_requests [OF framed_requests(1,2,3,3,3) field_okReply field_okReply
        field_okReply ev fresh depth, of 0 quiet "[]" "[]" "[]" quiet]
    by (simp add: idle_def)
qed

text \<open>
  Claim C2 as it is written fails in its first part: \<open>Subscribe\<close> does not look for
  a listener of the same event, so two registrations for \<open>PRIVMSG\<close> send two
  subscribe requests, not one.
\<close>

theorem subscribe_twice_counterexample:
  "fst (run jsonCodec 1 [OpSubscribe ''PRIVMSG'' quiet, OpSubscribe ''PRIVMSG'' quiet]
          (connected [frameOf jsonCodec okReply, frameOf jsonCodec okReply]))
     = [1, 2]
   \<and> conn_out (snd (run jsonCodec 1 [OpSubscribe ''PRIVMSG'' quiet, OpSubscribe ''PRIVMSG'' quiet]
          (connected [frameOf jsonCodec okReply, frameOf jsonCodec okReply])))
     = [frameOf jsonCodec (subscribeRequest ''PRIVMSG''),
        frameOf jsonCodec (subscribeRequest ''PRIVMSG'')]"
  by code_simp

text \<open>
  Claim C9. On a connection that \<open>ConnectWithLogger\<close> has opened, whatever the
  client calls and whatever the core sends, the handles that the successful
  registrations return are 1, 2, 3 and so on (as 64-bit integers), one more for
  each: the first is 1, and as long as fewer than \<open>2 ^ 63\<close> registrations have
  succeeded, each handle is greater than all the handles before it and no handle
  comes twice, also after an \<open>Unsubscribe\<close>.
\<close>

theorem handles_count_up:
  "ConnectWithLogger dial connectionString = Inr d0 \<and> run c n ops d0 = (hs, d') \<longrightarrow>
     hs = map (\<lambda>i. of_nat (Suc i)) [0..<length hs]
     \<and> (hs \<noteq> [] \<longrightarrow> hd hs = 1)
     \<and> (length hs < 2 ^ 63 \<longrightarrow>
          (\<forall>i j. i < j \<and> j < length hs \<longrightarrow> sint (hs ! i) < sint (hs ! j)) \<and> distinct hs)"
proof (intro impI)
  assume a: "ConnectWithLogger dial connectionString = Inr d0 \<and> run c n ops d0 = (hs, d')"
  then have "lastHandle d0 = 1"
    by (auto simp: ConnectWithLogger_def connected_def split: option.splits if_splits sum.splits)
  with a run_handles [of c n ops d0 hs d']
  have hs: "hs = map (\<lambda>i. of_nat (Suc i)) [0..<length hs]" by simp
  have nth: "hs ! i = of_nat (Suc i)" if "i < length hs" for i
    using that by (subst hs) simp
  have first: "hs \<noteq> [] \<longrightarrow> hd hs = 1"
    using nth [of 0] by (cases hs) auto
  have order: "sint (hs ! i) < sint (hs ! j)"
    if "length hs < 2 ^ 63" "i < j" "j < length hs" for i j
  proof -
    from that have "Suc i < 2 ^ 63" "Suc j < 2 ^ 63" by simp_all
    then have "sint (of_nat (Suc i) :: 64 word) = int (Suc i)"
      and "sint (of_nat (Suc j) :: 64 word) = int (Suc j)"
      by (simp_all only: sint_handle)
    with that nth [of i] nth [of j] show ?thesis by simp
  qed
  have "distinct hs" if "length hs < 2 ^ 63"
  proof -
    have "hs ! i \<noteq> hs ! j" if "i < j" "j < length hs" for i j
      using order [OF \<open>length hs < 2 ^ 63\<close> that] by auto
    then show ?thesis
      by (auto simp: distinct_conv_nth) (metis nat_neq_iff)
  qed
  with hs first order show "hs = map (\<lambda>i. of_nat (Suc i)) [0..<length hs]
     \<and> (hs \<noteq> [] \<longrightarrow> hd hs = 1)
     \<and> (length hs < 2 ^ 63 \<longrightarrow>
          (\<forall>i j. i < j \<and> j < length hs \<longrightarrow> sint (hs ! i) < sint (hs ! j)) \<and> distinct hs)"
    by blast
qed

theorem handles_count_up_witness:
  "ConnectWithLogger (\<lambda>format address. Inr (replicate 4 (frameOf jsonCodec okReply)))
       ''unix:/tmp/dazeus.sock''
     = Inr (connected (replicate 4 (frameOf jsonCodec okReply)))
   \<and> fst (run jsonCodec 1 client (connected (replicate 4 (frameOf jsonCodec okReply))))
       = [1, 2, 3]
   \<and> hd (fst (run jsonCodec 1 client (connected (replicate 4 (frameOf jsonCodec okReply))))) = 1
   \<and> sint (fst (run jsonCodec 1 client
                   (connected (replicate 4 (frameOf jsonCodec okReply)))) ! 0)
       < sint (fst (run jsonCodec 1 client
                     (connected (replicate 4 (frameOf jsonCodec okReply)))) ! 2)
   \<and> distinct (fst (run jsonCodec 1 client
                      (connected (replicate 4 (frameOf jsonCodec okReply)))))"
proof -
  let ?d0 = "connected (replicate 4 (frameOf jsonCodec okReply))"
  let ?hs = "fst (run jsonCodec 1 client ?d0)"
  have conn: "ConnectWithLogger (\<lambda>format address. Inr (replicate 4 (frameOf jsonCodec okReply)))
       ''unix:/tmp/dazeus.sock'' = Inr ?d0"
    by (simp add: ConnectWithLogger_def splitColon_def)
  have run: "run jsonCodec 1 client ?d0 = (?hs, snd (run jsonCodec 1 client ?d0))"
    by simp
  have hs: "?hs = [1, 2, 3]" by (rule client_handles)
  from handles_count_up [of "\<lambda>format address. Inr (replicate 4 (frameOf jsonCodec okReply))"
      "''unix:/tmp/dazeus.sock''" ?d0 jsonCodec 1 client ?hs "snd (run jsonCodec 1 client ?d0)"]
    conn run
  have all: "(?hs \<noteq> [] \<longrightarrow> hd ?hs = 1)
     \<and> (length ?hs < 2 ^ 63 \<longrightarrow>
          (\<forall>i j. i < j \<and> j < length ?hs \<longrightarrow> sint (?hs ! i) < sint (?hs ! j)) \<and> distinct ?hs)"
    by blast
  have len: "length ?hs = 3" "?hs \<noteq> []" by (simp_all only: hs) simp_all
  from all len have "hd ?hs = 1" by blast
  moreover from all len have ord: "\<forall>i j. i < j \<and> j < length ?hs \<longrightarrow> sint (?hs ! i) < sint (?hs ! j)"
    and "distinct ?hs"
    by simp_all
  moreover have "(0::nat) < 2 \<and> 2 < length ?hs" by (simp only: len) simp
  with ord have "sint (?hs ! 0) < sint (?hs ! 2)" by blast
  ultimately show ?thesis using conn hs by blast
qed

end
